theory Spec2Isabelle
  imports Main
begin

section \<open>Pages, the buffer pool and the operation context\<close>

text \<open>
  The index of \<^verbatim>\<open>src/storage/index/b_plus_tree.cpp\<close>.  Keys, values and page
  identifiers are integers (the test drivers of the file build keys and record
  identifiers from an \<^verbatim>\<open>int64_t\<close>).  Sizes and slot indices are the C++ \<^verbatim>\<open>int\<close>s of
  the source, read as mathematical integers.
\<close>

type_synonym page_id_t = int
type_synonym KeyType = int
type_synonym ValueType = int

definition INVALID_PAGE_ID :: page_id_t where
  "INVALID_PAGE_ID = -1"

text \<open>
  Modelled from the spec: the comparator is supplied by the caller; section 3 gives it as a
  strict total order with results in \<open>{-1, 0, +1}\<close>.
\<close>

definition comparator :: "KeyType \<Rightarrow> KeyType \<Rightarrow> int" where
  "comparator a b = (if a < b then -1 else if a = b then 0 else 1)"

datatype IndexPageType = INVALID_INDEX_PAGE | LEAF_PAGE | INTERNAL_PAGE

text \<open>
  Modelled from the spec: the page views of section 4.A (their header files are not part of
  the source file).  A page carries its kind, its size, its maximum size, the link to the next
  leaf and the slot array; slot \<open>i\<close> is a key paired with a value (a record identifier in a
  leaf, a child page id in an internal page).  The array is read and written at any integer
  index, as the C++ array in the page's bytes is; a slot that was never written holds whatever
  the page held there.
\<close>

record BPlusTreePage =
  page_type :: IndexPageType
  page_size :: int
  max_size :: int
  next_page_id :: page_id_t
  slot_array :: "int \<Rightarrow> KeyType \<times> int"

definition IsLeafPage :: "BPlusTreePage \<Rightarrow> bool" where
  "IsLeafPage p = (page_type p = LEAF_PAGE)"

definition GetSize :: "BPlusTreePage \<Rightarrow> int" where
  "GetSize p = page_size p"

definition SetSize :: "BPlusTreePage \<Rightarrow> int \<Rightarrow> BPlusTreePage" where
  "SetSize p n = p\<lparr>page_size := n\<rparr>"

definition IncreaseSize :: "BPlusTreePage \<Rightarrow> int \<Rightarrow> BPlusTreePage" where
  "IncreaseSize p d = p\<lparr>page_size := page_size p + d\<rparr>"

definition GetMaxSize :: "BPlusTreePage \<Rightarrow> int" where
  "GetMaxSize p = max_size p"

text \<open>
  Modelled from the spec: section 3 gives the minimum size of a leaf and of an internal page
  as the maximum size halved and rounded up.
\<close>

definition GetMinSize :: "BPlusTreePage \<Rightarrow> int" where
  "GetMinSize p = (max_size p + 1) div 2"

definition KeyAt :: "BPlusTreePage \<Rightarrow> int \<Rightarrow> KeyType" where
  "KeyAt p i = fst (slot_array p i)"

definition ValueAt :: "BPlusTreePage \<Rightarrow> int \<Rightarrow> int" where
  "ValueAt p i = snd (slot_array p i)"

definition SetAt :: "BPlusTreePage \<Rightarrow> int \<Rightarrow> KeyType \<Rightarrow> ValueType \<Rightarrow> BPlusTreePage" where
  "SetAt p i k v = p\<lparr>slot_array := (slot_array p)(i := (k, v))\<rparr>"

definition SetKeyAt :: "BPlusTreePage \<Rightarrow> int \<Rightarrow> KeyType \<Rightarrow> BPlusTreePage" where
  "SetKeyAt p i k = p\<lparr>slot_array := (slot_array p)(i := (k, snd (slot_array p i)))\<rparr>"

definition SetValueAt :: "BPlusTreePage \<Rightarrow> int \<Rightarrow> page_id_t \<Rightarrow> BPlusTreePage" where
  "SetValueAt p i v = p\<lparr>slot_array := (slot_array p)(i := (fst (slot_array p i), v))\<rparr>"

definition GetNextPageId :: "BPlusTreePage \<Rightarrow> page_id_t" where
  "GetNextPageId p = next_page_id p"

definition SetNextPageId :: "BPlusTreePage \<Rightarrow> page_id_t \<Rightarrow> BPlusTreePage" where
  "SetNextPageId p n = p\<lparr>next_page_id := n\<rparr>"

text \<open>
  Modelled from the spec: \<open>init\<close> zeroes the size and sets the maximum (section 4.A); a leaf
  starts with no successor, the last leaf's link being \<open>INVALID_PAGE_ID\<close> (section 3).
\<close>

definition Init_leaf :: "BPlusTreePage \<Rightarrow> int \<Rightarrow> BPlusTreePage" where
  "Init_leaf p m = p\<lparr>page_type := LEAF_PAGE, page_size := 0, max_size := m,
                     next_page_id := INVALID_PAGE_ID\<rparr>"

definition Init_internal :: "BPlusTreePage \<Rightarrow> int \<Rightarrow> BPlusTreePage" where
  "Init_internal p m = p\<lparr>page_type := INTERNAL_PAGE, page_size := 0, max_size := m\<rparr>"

text \<open>
  Modelled from the spec: \<open>value_index\<close> is a linear search for the slot whose child is the
  given page (section 4.A); the search runs over the slots \<open>0 .. size - 1\<close> and answers
  \<open>-1\<close> when none matches.
\<close>

function ValueIndex_from :: "int \<Rightarrow> BPlusTreePage \<Rightarrow> page_id_t \<Rightarrow> int" where
  "ValueIndex_from i p v =
     (if i < page_size p then (if snd (slot_array p i) = v then i else ValueIndex_from (i + 1) p v)
      else -1)"
  by pat_completeness auto
termination
  by (relation "measure (\<lambda>(i, p, v). nat (page_size p - i))") auto

declare ValueIndex_from.simps [simp del]

definition ValueIndex :: "BPlusTreePage \<Rightarrow> page_id_t \<Rightarrow> int" where
  "ValueIndex p v = ValueIndex_from 0 p v"

text \<open>
  The state of the index: the two fan-out parameters of the tree object, the header page's
  \<open>root_page_id\<close>, and the buffer pool, which is the map from page ids to the tree's pages
  together with the id the next allocation returns.
\<close>

record BPlusTree =
  leaf_max_size :: int
  internal_max_size :: int
  root_page_id :: page_id_t
  pages :: "page_id_t \<rightharpoonup> BPlusTreePage"
  next_new_page :: page_id_t

text \<open>The constructor (lines 23-41): the header page's root id is set to invalid.\<close>

definition BPlusTree_new :: "int \<Rightarrow> int \<Rightarrow> BPlusTree" where
  "BPlusTree_new lm im =
     \<lparr>leaf_max_size = lm, internal_max_size = im,
      root_page_id = INVALID_PAGE_ID, pages = Map.empty, next_new_page = 0\<rparr>"

definition IsEmpty :: "BPlusTree \<Rightarrow> bool" where
  "IsEmpty t = (root_page_id t = INVALID_PAGE_ID)"

definition GetRootPageId :: "BPlusTree \<Rightarrow> page_id_t" where
  "GetRootPageId t = root_page_id t"

datatype error =
    Deadlock           \<comment> \<open>a write latch is requested on a page this operation has latched\<close>
  | FetchFailed        \<comment> \<open>the pool holds no page of that id\<close>
  | NulloptDeref       \<comment> \<open>\<^verbatim>\<open>ctx.header_page_\<close> is dereferenced while it is \<^verbatim>\<open>std::nullopt\<close>\<close>
  | BadCast            \<comment> \<open>a page is viewed as the other kind of page\<close>
  | OutOfRange         \<comment> \<open>the write set or a slot array is indexed below zero or past its end\<close>
  | OutOfFuel          \<comment> \<open>the descent did not reach a leaf within the given number of steps\<close>

datatype Operation = Op_Search | Op_Insert | Op_Remove

text \<open>
  Modelled from the spec: the context of section 4.D.  A guard is represented by the id of the
  page it latches; the optional header guard is \<open>Some ()\<close> while held.
\<close>

record Context =
  header_page :: "unit option"
  ctx_root_page_id :: page_id_t
  write_set :: "page_id_t list"
  read_set :: "page_id_t list"

definition Context_new :: Context where
  "Context_new = \<lparr>header_page = None, ctx_root_page_id = INVALID_PAGE_ID,
                    write_set = [], read_set = []\<rparr>"

definition IsRootPage :: "Context \<Rightarrow> page_id_t \<Rightarrow> bool" where
  "IsRootPage ctx pid = (ctx_root_page_id ctx = pid)"

text \<open>
  Modelled from the spec: the buffer pool of section 6.  A read fetch answers the page, or
  fails when there is none.  A write fetch takes the page's exclusive latch (section 4.B), so it
  cannot be granted for a page whose write guard the running operation still holds: the guards
  of the write set and the sibling guards of the calls still in progress (\<open>held\<close>).
\<close>

definition FetchPageRead :: "BPlusTree \<Rightarrow> page_id_t \<Rightarrow> error + BPlusTreePage" where
  "FetchPageRead t pid = (case pages t pid of None \<Rightarrow> Inl FetchFailed | Some p \<Rightarrow> Inr p)"

definition FetchPageWrite ::
  "BPlusTree \<Rightarrow> Context \<Rightarrow> page_id_t list \<Rightarrow> page_id_t \<Rightarrow> error + BPlusTreePage" where
  "FetchPageWrite t ctx held pid =
     (if pid \<in> set (write_set ctx) \<or> pid \<in> set held then Inl Deadlock
      else case pages t pid of None \<Rightarrow> Inl FetchFailed | Some p \<Rightarrow> Inr p)"

text \<open>
  Modelled from the spec: \<open>new_page\<close> allocates a fresh zeroed page and answers its id
  (section 6).
\<close>

definition zero_page :: BPlusTreePage where
  "zero_page = \<lparr>page_type = INVALID_INDEX_PAGE, page_size = 0, max_size = 0, next_page_id = 0,
                 slot_array = (\<lambda>_. (0, 0))\<rparr>"

definition NewPageGuarded :: "BPlusTree \<Rightarrow> page_id_t \<times> BPlusTree" where
  "NewPageGuarded t =
     (next_new_page t,
      t\<lparr>pages := (pages t)(next_new_page t \<mapsto> zero_page),
        next_new_page := next_new_page t + 1\<rparr>)"

definition put_page :: "BPlusTree \<Rightarrow> page_id_t \<Rightarrow> BPlusTreePage \<Rightarrow> BPlusTree" where
  "put_page t pid p = t\<lparr>pages := (pages t)(pid \<mapsto> p)\<rparr>"

section \<open>Search primitives (lines 494-547)\<close>

text \<open>The loop of both binary searches: \<^verbatim>\<open>while (l < r) { mid = (l + r + 1) >> 1; ... }\<close>.\<close>

function BinaryFind_loop :: "BPlusTreePage \<Rightarrow> KeyType \<Rightarrow> int \<Rightarrow> int \<Rightarrow> int" where
  "BinaryFind_loop page key l r =
     (if l < r then
        (let mid = (l + r + 1) div 2 in
         if comparator (KeyAt page mid) key \<noteq> 1 then BinaryFind_loop page key mid r
         else BinaryFind_loop page key l (mid - 1))
      else r)"
  by pat_completeness auto
termination
  by (relation "measure (\<lambda>(page, key, l, r). nat (r - l))") auto

declare BinaryFind_loop.simps [simp del]

definition BinaryFind_leaf :: "BPlusTreePage \<Rightarrow> KeyType \<Rightarrow> int" where
  "BinaryFind_leaf leaf_page key =
     (let r = BinaryFind_loop leaf_page key 0 (GetSize leaf_page - 1) in
      if r \<ge> 0 \<and> comparator (KeyAt leaf_page r) key = 1 then -1 else r)"

definition BinaryFind_internal :: "BPlusTreePage \<Rightarrow> KeyType \<Rightarrow> int" where
  "BinaryFind_internal internal_page key =
     (let r = BinaryFind_loop internal_page key 1 (GetSize internal_page - 1) in
      if r = -1 \<or> comparator (KeyAt internal_page r) key = 1 then 0 else r)"

section \<open>The slot loops\<close>

text \<open>
  The copying loops of the source, each moving a slot's key and value together (a leaf's
  \<^verbatim>\<open>SetAt(i, KeyAt(j), ValueAt(j))\<close>, an internal page's \<^verbatim>\<open>SetKeyAt(i, KeyAt(j))\<close> followed by
  \<^verbatim>\<open>SetValueAt(i, ValueAt(j))\<close>).
\<close>

definition copy_slot :: "BPlusTreePage \<Rightarrow> int \<Rightarrow> BPlusTreePage \<Rightarrow> int \<Rightarrow> BPlusTreePage" where
  "copy_slot dst i src j = SetValueAt (SetKeyAt dst i (KeyAt src j)) i (ValueAt src j)"

text \<open>\<^verbatim>\<open>for (int i = from; i > index; --i) page[i] = page[i - 1];\<close>\<close>

function shift_right :: "int \<Rightarrow> int \<Rightarrow> BPlusTreePage \<Rightarrow> BPlusTreePage" where
  "shift_right i index page =
     (if i > index then shift_right (i - 1) index (copy_slot page i page (i - 1)) else page)"
  by pat_completeness auto
termination
  by (relation "measure (\<lambda>(i, index, page). nat (i - index))") auto

declare shift_right.simps [simp del]

text \<open>\<^verbatim>\<open>for (int i = from; i < to; ++i) page[i - 1] = page[i];\<close>\<close>

function shift_left :: "int \<Rightarrow> int \<Rightarrow> BPlusTreePage \<Rightarrow> BPlusTreePage" where
  "shift_left i to page =
     (if i < to then shift_left (i + 1) to (copy_slot page (i - 1) page i) else page)"
  by pat_completeness auto
termination
  by (relation "measure (\<lambda>(i, to, page). nat (to - i))") auto

declare shift_left.simps [simp del]

text \<open>\<^verbatim>\<open>for (int i = from; i < to; ++i) dst[i + off] = src[i];\<close>\<close>

function copy_slots :: "int \<Rightarrow> int \<Rightarrow> int \<Rightarrow> BPlusTreePage \<Rightarrow> BPlusTreePage \<Rightarrow> BPlusTreePage" where
  "copy_slots i to off src dst =
     (if i < to then copy_slots (i + 1) to off src (copy_slot dst (i + off) src i) else dst)"
  by pat_completeness auto
termination
  by (relation "measure (\<lambda>(i, to, off, src, dst). nat (to - i))") auto

declare copy_slots.simps [simp del]

text \<open>\<^verbatim>\<open>for (int i = from; i < to; ++i) page[i] = page[i + 1];\<close>\<close>

function shift_down :: "int \<Rightarrow> int \<Rightarrow> BPlusTreePage \<Rightarrow> BPlusTreePage" where
  "shift_down i to page =
     (if i < to then shift_down (i + 1) to (copy_slot page i page (i + 1)) else page)"
  by pat_completeness auto
termination
  by (relation "measure (\<lambda>(i, to, page). nat (to - i))") auto

declare shift_down.simps [simp del]

section \<open>Descent (lines 84-135)\<close>

text \<open>The view of the page that a guard holds.\<close>

definition As :: "BPlusTree \<Rightarrow> page_id_t \<Rightarrow> error + BPlusTreePage" where
  "As t guard = (case pages t guard of None \<Rightarrow> Inl FetchFailed | Some p \<Rightarrow> Inr p)"

definition IsSafePage :: "BPlusTreePage \<Rightarrow> Operation \<Rightarrow> bool \<Rightarrow> bool" where
  "IsSafePage tree_page op isRootPage =
     (if op = Op_Search then True
      else if op = Op_Insert then
        (if IsLeafPage tree_page then GetSize tree_page + 1 < GetMaxSize tree_page
         else GetSize tree_page < GetMaxSize tree_page)
      else if op = Op_Remove then
        (if isRootPage then
           (if IsLeafPage tree_page then GetSize tree_page > 1 else GetSize tree_page > 2)
         else GetSize tree_page > GetMinSize tree_page)
      else False)"

text \<open>\<^verbatim>\<open>while (ctx.write_set_.size() > 1) ctx.write_set_.pop_front();\<close>\<close>

fun pop_front_while :: "page_id_t list \<Rightarrow> page_id_t list" where
  "pop_front_while (x # y # xs) = pop_front_while (y # xs)"
| "pop_front_while xs = xs"

text \<open>
  \<open>FindLeafPage\<close>: each round of its \<^verbatim>\<open>while (!page->IsLeafPage())\<close> loop uses one unit of
  fuel; the loop ends at a leaf, and a descent that has not reached one when the fuel is used
  up answers \<open>OutOfFuel\<close>.
\<close>

fun FindLeafPage ::
  "nat \<Rightarrow> KeyType \<Rightarrow> Operation \<Rightarrow> BPlusTree \<Rightarrow> Context \<Rightarrow> error + Context" where
  "FindLeafPage 0 key op t ctx =
     (case As t (last (if op = Op_Search then read_set ctx else write_set ctx)) of
        Inl e \<Rightarrow> Inl e
      | Inr page \<Rightarrow> if IsLeafPage page then Inr ctx else Inl OutOfFuel)"
| "FindLeafPage (Suc fuel) key op t ctx =
     (if op = Op_Search then
        (case As t (last (read_set ctx)) of
           Inl e \<Rightarrow> Inl e
         | Inr page \<Rightarrow>
             if IsLeafPage page then Inr ctx
             else
               (let next_page_id = ValueAt page (BinaryFind_internal page key) in
                case FetchPageRead t next_page_id of
                  Inl e \<Rightarrow> Inl e
                | Inr child \<Rightarrow>
                    FindLeafPage fuel key op t
                      (ctx\<lparr>read_set := read_set ctx @ [next_page_id]\<rparr>)))
      else
        (case As t (last (write_set ctx)) of
           Inl e \<Rightarrow> Inl e
         | Inr page \<Rightarrow>
             if IsLeafPage page then Inr ctx
             else
               (let next_page_id = ValueAt page (BinaryFind_internal page key) in
                case FetchPageWrite t ctx [] next_page_id of
                  Inl e \<Rightarrow> Inl e
                | Inr child \<Rightarrow>
                    FindLeafPage fuel key op t
                      (if IsSafePage child op False
                       then ctx\<lparr>write_set := pop_front_while (write_set ctx @ [next_page_id])\<rparr>
                       else ctx\<lparr>write_set := write_set ctx @ [next_page_id]\<rparr>))))"

text \<open>
  Lines 159-171 and 308-317: the context with which \<open>Insert\<close> and \<open>Remove\<close> enter the descent.
  Both take the write guard of the header page, record the root's id, push the write guard of
  the root page, and then test the root: \<^verbatim>\<open>if (IsSafePage(root_page, op, true))
  ctx.header_page_ = std::nullopt;\<close>, so the header guard is given up exactly when the root
  page passes the test.
\<close>

definition writer_ctx :: "BPlusTree \<Rightarrow> BPlusTreePage \<Rightarrow> Operation \<Rightarrow> Context" where
  "writer_ctx t root_page op =
     \<lparr>header_page = (if IsSafePage root_page op True then None else Some ()),
      ctx_root_page_id = root_page_id t, write_set = [root_page_id t], read_set = []\<rparr>"

section \<open>Point query (lines 66-82)\<close>

definition GetValue ::
  "nat \<Rightarrow> KeyType \<Rightarrow> ValueType list \<Rightarrow> BPlusTree \<Rightarrow> error + (bool \<times> ValueType list)" where
  "GetValue fuel key result t =
     (if root_page_id t = INVALID_PAGE_ID then Inr (False, result)
      else
        (case FetchPageRead t (root_page_id t) of
           Inl e \<Rightarrow> Inl e
         | Inr root_page \<Rightarrow>
             (case FindLeafPage fuel key Op_Search t
                     (Context_new\<lparr>ctx_root_page_id := root_page_id t,
                                  read_set := [root_page_id t]\<rparr>) of
                Inl e \<Rightarrow> Inl e
              | Inr ctx \<Rightarrow>
                  (case As t (last (read_set ctx)) of
                     Inl e \<Rightarrow> Inl e
                   | Inr leaf_page \<Rightarrow>
                       (let index = BinaryFind_leaf leaf_page key in
                        if index = -1 \<or> comparator (KeyAt leaf_page index) key \<noteq> 0
                        then Inr (False, result)
                        else Inr (True, result @ [ValueAt leaf_page index]))))))"

section \<open>Insertion (lines 148-292)\<close>

text \<open>Lines 219-231: the split went past the old root; a new root is made.\<close>

definition InsertIntoParent_new_root ::
  "KeyType \<Rightarrow> page_id_t \<Rightarrow> Context \<Rightarrow> int \<Rightarrow> BPlusTree \<Rightarrow> error + BPlusTree" where
  "InsertIntoParent_new_root key new_child_id ctx index t =
     (let (new_root_page_id, t1) = NewPageGuarded t;
          new_root_page = Init_internal zero_page (internal_max_size t);
          new_root_page = SetSize new_root_page 2
      in if index + 1 < 0 \<or> int (length (write_set ctx)) \<le> index + 1 then Inl OutOfRange
         else
           (let new_root_page = SetValueAt new_root_page 0 (write_set ctx ! nat (index + 1));
                new_root_page = SetKeyAt new_root_page 1 key;
                new_root_page = SetValueAt new_root_page 1 new_child_id
            in case header_page ctx of
                 None \<Rightarrow> Inl NulloptDeref
               | Some header_guard \<Rightarrow>
                   Inr ((put_page t1 new_root_page_id new_root_page)
                          \<lparr>root_page_id := new_root_page_id\<rparr>)))"

text \<open>Lines 235-245: the parent has room; the entry goes in behind its routing slot.\<close>

definition InsertIntoParent_no_split ::
  "BPlusTreePage \<Rightarrow> KeyType \<Rightarrow> page_id_t \<Rightarrow> BPlusTreePage" where
  "InsertIntoParent_no_split parent_page key new_child_id =
     (let index = BinaryFind_internal parent_page key + 1;
          parent_page = IncreaseSize parent_page 1;
          parent_page = shift_right (GetSize parent_page - 1) index parent_page;
          parent_page = SetKeyAt parent_page index key;
          parent_page = SetValueAt parent_page index new_child_id
      in parent_page)"

text \<open>
  Lines 247-290: the parent is full and is split.  The result is the parent as it is left and
  the new page, which was initialised by the caller.
\<close>

definition InsertIntoParent_split ::
  "BPlusTreePage \<Rightarrow> BPlusTreePage \<Rightarrow> KeyType \<Rightarrow> page_id_t \<Rightarrow> BPlusTreePage \<times> BPlusTreePage" where
  "InsertIntoParent_split parent_page new_page key new_child_id =
     (let new_parent_page =
            SetSize new_page (GetMaxSize parent_page + 1 - GetMinSize parent_page);
          pos = BinaryFind_internal parent_page key + 1
      in if pos < GetMinSize parent_page then
           (let new_parent_page =
                  copy_slots (GetMinSize parent_page) (GetSize parent_page)
                    (1 - GetMinSize parent_page) parent_page new_parent_page;
                new_parent_page =
                  SetKeyAt new_parent_page 0 (KeyAt parent_page (GetMinSize parent_page - 1));
                new_parent_page =
                  SetValueAt new_parent_page 0 (ValueAt parent_page (GetMinSize parent_page - 1));
                parent_page = shift_right (GetMinSize parent_page - 1) pos parent_page;
                parent_page = SetKeyAt parent_page pos key;
                parent_page = SetValueAt parent_page pos new_child_id
            in (SetSize parent_page (GetMinSize parent_page), new_parent_page))
         else if pos = GetMinSize parent_page then
           (let new_parent_page =
                  copy_slots (GetMinSize parent_page) (GetSize parent_page)
                    (1 - GetMinSize parent_page) parent_page new_parent_page;
                new_parent_page = SetValueAt new_parent_page 0 new_child_id;
                new_parent_page = SetKeyAt new_parent_page 0 key
            in (SetSize parent_page (GetMinSize parent_page), new_parent_page))
         else
           (let new_parent_page =
                  copy_slots (GetMinSize parent_page) (GetSize parent_page)
                    (- GetMinSize parent_page) parent_page new_parent_page;
                pos = pos - GetMinSize parent_page;
                new_parent_page = shift_right (GetSize new_parent_page - 1) pos new_parent_page;
                new_parent_page = SetKeyAt new_parent_page pos key;
                new_parent_page = SetValueAt new_parent_page pos new_child_id
            in (SetSize parent_page (GetMinSize parent_page), new_parent_page)))"

text \<open>
  Lines 247-291 with the pool: the new page is allocated and initialised, the parent is split,
  and the answer is the key and the page id that the recursive call receives, with the pool
  in which both pages are written.
\<close>

definition InsertIntoParent_split_step ::
  "BPlusTreePage \<Rightarrow> page_id_t \<Rightarrow> KeyType \<Rightarrow> page_id_t \<Rightarrow> BPlusTree
     \<Rightarrow> KeyType \<times> page_id_t \<times> BPlusTree" where
  "InsertIntoParent_split_step parent_page parent_id key new_child_id t =
     (let (new_parent_page_id, t1) = NewPageGuarded t;
          (parent_page, new_parent_page) =
             InsertIntoParent_split parent_page
               (Init_internal zero_page (internal_max_size t)) key new_child_id
      in (KeyAt new_parent_page 0, new_parent_page_id,
          put_page (put_page t1 parent_id parent_page) new_parent_page_id new_parent_page))"

text \<open>
  \<open>InsertIntoParent\<close> (lines 216-292): the recursion goes one place down the write set each
  time a parent is split, with the new page's slot-0 key as the key to insert.
\<close>

function InsertIntoParent ::
  "KeyType \<Rightarrow> page_id_t \<Rightarrow> Context \<Rightarrow> int \<Rightarrow> BPlusTree \<Rightarrow> error + BPlusTree" where
  "InsertIntoParent key new_child_id ctx index t =
     (if index < 0 then InsertIntoParent_new_root key new_child_id ctx index t
      else if int (length (write_set ctx)) \<le> index then Inl OutOfRange
      else
        (case As t (write_set ctx ! nat index) of
           Inl e \<Rightarrow> Inl e
         | Inr parent_page \<Rightarrow>
             if GetSize parent_page \<noteq> GetMaxSize parent_page then
               Inr (put_page t (write_set ctx ! nat index)
                      (InsertIntoParent_no_split parent_page key new_child_id))
             else
               (case InsertIntoParent_split_step parent_page (write_set ctx ! nat index)
                       key new_child_id t of
                  (up_key, new_parent_page_id, t2) \<Rightarrow>
                    InsertIntoParent up_key new_parent_page_id ctx (index - 1) t2)))"
  by pat_completeness auto
termination
  by (relation "measure (\<lambda>(key, new_child_id, ctx, index, t). nat (index + 1))") auto

declare InsertIntoParent.simps [simp del]

text \<open>Lines 182-187: the entry is put into the leaf behind the slot the search answered.\<close>

definition Insert_into_leaf ::
  "BPlusTreePage \<Rightarrow> int \<Rightarrow> KeyType \<Rightarrow> ValueType \<Rightarrow> BPlusTreePage" where
  "Insert_into_leaf leaf_page index key value =
     (let index = index + 1;
          leaf_page = IncreaseSize leaf_page 1;
          leaf_page = shift_right (GetSize leaf_page) index leaf_page;
          leaf_page = SetAt leaf_page index key value
      in leaf_page)"

text \<open>
  Lines 194-207: the leaf is split; the result is the old leaf as it is left and the new
  leaf, whose page id is \<open>new_page_id\<close>.
\<close>

definition Insert_split_leaf ::
  "BPlusTreePage \<Rightarrow> page_id_t \<Rightarrow> int \<Rightarrow> BPlusTreePage \<times> BPlusTreePage" where
  "Insert_split_leaf leaf_page new_page_id leaf_max =
     (let leaf_page = SetNextPageId leaf_page new_page_id;
          new_leaf_page = Init_leaf zero_page leaf_max;
          new_leaf_page = SetSize new_leaf_page (GetSize leaf_page - GetMinSize leaf_page);
          new_leaf_page = SetNextPageId new_leaf_page (GetNextPageId leaf_page);
          new_leaf_page =
            copy_slots (GetMinSize leaf_page) (GetSize leaf_page) (- GetMinSize leaf_page)
              leaf_page new_leaf_page;
          leaf_page = SetSize leaf_page (GetMinSize leaf_page)
      in (leaf_page, new_leaf_page))"

text \<open>Lines 173-213: the work at the leaf that the descent reached.\<close>

definition Insert_at_leaf ::
  "KeyType \<Rightarrow> ValueType \<Rightarrow> Context \<Rightarrow> BPlusTree \<Rightarrow> error + (bool \<times> BPlusTree)" where
  "Insert_at_leaf key value ctx t =
     (case As t (last (write_set ctx)) of
        Inl e \<Rightarrow> Inl e
      | Inr leaf_page \<Rightarrow>
          (let index = BinaryFind_leaf leaf_page key in
           if index \<noteq> -1 \<and> comparator (KeyAt leaf_page index) key = 0
           then Inr (False, t)
           else
             (let leaf_page = Insert_into_leaf leaf_page index key value in
              if GetSize leaf_page < GetMaxSize leaf_page
              then Inr (True, put_page t (last (write_set ctx)) leaf_page)
              else
                (let (new_page_id, t1) = NewPageGuarded t;
                     (leaf_page, new_leaf_page) =
                        Insert_split_leaf leaf_page new_page_id (leaf_max_size t);
                     split_key = KeyAt new_leaf_page 0
                 in case InsertIntoParent split_key new_page_id ctx
                           (int (length (write_set ctx)) - 2)
                           (put_page (put_page t1 (last (write_set ctx)) leaf_page)
                              new_page_id new_leaf_page) of
                      Inl e \<Rightarrow> Inl e
                    | Inr t2 \<Rightarrow> Inr (True, t2)))))"

definition Insert ::
  "nat \<Rightarrow> KeyType \<Rightarrow> ValueType \<Rightarrow> BPlusTree \<Rightarrow> error + (bool \<times> BPlusTree)" where
  "Insert fuel key value t =
     (if root_page_id t = INVALID_PAGE_ID then
        (let (new_root_id, t1) = NewPageGuarded t;
             leaf_page = Init_leaf zero_page (leaf_max_size t);
             leaf_page = SetSize leaf_page 1;
             leaf_page = SetAt leaf_page 0 key value
         in Inr (True, (put_page t1 new_root_id leaf_page)\<lparr>root_page_id := new_root_id\<rparr>))
      else
        (case FetchPageWrite t (Context_new\<lparr>header_page := Some ()\<rparr>) [] (root_page_id t) of
           Inl e \<Rightarrow> Inl e
         | Inr root_page \<Rightarrow>
             (case FindLeafPage fuel key Op_Insert t (writer_ctx t root_page Op_Insert) of
                Inl e \<Rightarrow> Inl e
              | Inr ctx \<Rightarrow> Insert_at_leaf key value ctx t)))"

section \<open>Removal (lines 305-488)\<close>

text \<open>
  The result of one call of \<open>RemoveFromParent\<close> before its recursive call: either the call
  is over, or it goes on one place down the write set, with the slot to remove there and the
  sibling guard that stays alive meanwhile.
\<close>

datatype remove_step = Done BPlusTree | Recurse int page_id_t BPlusTree

text \<open>
  Lines 432-458: the underflowing internal page has a right brother; the two are merged into
  the page, or the page borrows the brother's first slot.
\<close>

definition RemoveFromParent_right_brother ::
  "Context \<Rightarrow> page_id_t list \<Rightarrow> BPlusTree \<Rightarrow> page_id_t \<Rightarrow> BPlusTreePage \<Rightarrow>
     page_id_t \<Rightarrow> BPlusTreePage \<Rightarrow> int \<Rightarrow> error + remove_step" where
  "RemoveFromParent_right_brother ctx held t page_id page parent_id parent_page pos =
     (let right_brother_page_id = ValueAt parent_page (pos + 1) in
      case FetchPageWrite t ctx held right_brother_page_id of
        Inl e \<Rightarrow> Inl e
      | Inr right_brother_page \<Rightarrow>
          if IsLeafPage right_brother_page then Inl BadCast
          else
            (let merge_size = GetSize right_brother_page + GetSize page in
             if merge_size \<le> GetMaxSize page then
               (let s = GetSize page;
                    page = SetSize page merge_size;
                    page = copy_slots 0 (GetSize right_brother_page) s right_brother_page page
                in Inr (Recurse (pos + 1) right_brother_page_id (put_page t page_id page)))
             else
               (let page = IncreaseSize page 1;
                    page = SetKeyAt page (GetSize page - 1) (KeyAt right_brother_page 0);
                    page = SetValueAt page (GetSize page - 1) (ValueAt right_brother_page 0);
                    right_brother_page =
                      shift_down 0 (GetSize right_brother_page - 1) right_brother_page;
                    right_brother_page =
                      SetSize right_brother_page (GetSize right_brother_page - 1);
                    parent_page = SetKeyAt parent_page (pos + 1) (KeyAt right_brother_page 0)
                in Inr (Done
                     (put_page
                        (put_page (put_page t page_id page)
                           right_brother_page_id right_brother_page)
                        parent_id parent_page)))))"

text \<open>
  Lines 459-487: there is no right brother; the page is merged into its left brother, or it
  borrows the left brother's last slot.
\<close>

definition RemoveFromParent_left_brother ::
  "Context \<Rightarrow> page_id_t list \<Rightarrow> BPlusTree \<Rightarrow> page_id_t \<Rightarrow> BPlusTreePage \<Rightarrow>
     page_id_t \<Rightarrow> BPlusTreePage \<Rightarrow> int \<Rightarrow> error + remove_step" where
  "RemoveFromParent_left_brother ctx held t page_id page parent_id parent_page pos =
     (let left_brother_page_id = ValueAt parent_page (pos - 1) in
      if pos - 1 < 0 then Inl OutOfRange
      else
        case FetchPageWrite t ctx held left_brother_page_id of
          Inl e \<Rightarrow> Inl e
        | Inr left_brother_page \<Rightarrow>
            if IsLeafPage left_brother_page then Inl BadCast
            else
              (let merge_size = GetSize left_brother_page + GetSize page in
               if merge_size \<le> GetMaxSize left_brother_page then
                 (let s = GetSize left_brother_page;
                      left_brother_page = SetSize left_brother_page merge_size;
                      left_brother_page = copy_slots 0 (GetSize page) s page left_brother_page
                  in Inr (Recurse pos left_brother_page_id
                            (put_page (put_page t page_id page)
                               left_brother_page_id left_brother_page)))
               else
                 (let page = IncreaseSize page 1;
                      page = shift_right (GetSize page - 1) 0 page;
                      page = SetKeyAt page 0
                               (KeyAt left_brother_page (GetSize left_brother_page - 1));
                      page = SetValueAt page 0
                               (ValueAt left_brother_page (GetSize left_brother_page - 1));
                      left_brother_page =
                        SetSize left_brother_page (GetSize left_brother_page - 1);
                      parent_page = SetKeyAt parent_page pos (KeyAt page 0)
                  in Inr (Done
                       (put_page
                          (put_page (put_page t page_id page)
                             left_brother_page_id left_brother_page)
                          parent_id parent_page)))))"

text \<open>
  Lines 409-431: the slot is taken out of the page; if the page underflows it is the root
  (which may collapse) or the work passes to a brother.
\<close>

definition RemoveFromParent_step ::
  "int \<Rightarrow> Context \<Rightarrow> int \<Rightarrow> page_id_t list \<Rightarrow> BPlusTree \<Rightarrow> error + remove_step" where
  "RemoveFromParent_step valueIndex ctx index held t =
     (if index < 0 \<or> int (length (write_set ctx)) \<le> index then Inl OutOfRange
      else
        (let page_id = write_set ctx ! nat index in
         case As t page_id of
           Inl e \<Rightarrow> Inl e
         | Inr page \<Rightarrow>
             (let page = shift_left (valueIndex + 1) (GetSize page) page;
                  page = SetSize page (GetSize page - 1)
              in if GetSize page \<ge> GetMinSize page then Inr (Done (put_page t page_id page))
                 else if IsRootPage ctx page_id then
                   (if GetSize page = 1 then
                      (case header_page ctx of
                         None \<Rightarrow> Inl NulloptDeref
                       | Some header_guard \<Rightarrow>
                           Inr (Done ((put_page t page_id page)
                                        \<lparr>root_page_id := ValueAt page 0\<rparr>)))
                    else Inr (Done (put_page t page_id page)))
                 else if index - 1 < 0 then Inl OutOfRange
                 else
                   (let parent_id = write_set ctx ! nat (index - 1) in
                    case As t parent_id of
                      Inl e \<Rightarrow> Inl e
                    | Inr parent_page \<Rightarrow>
                        (let pos = ValueIndex parent_page page_id in
                         if pos < GetSize parent_page - 1
                         then RemoveFromParent_right_brother ctx held t page_id page
                                parent_id parent_page pos
                         else RemoveFromParent_left_brother ctx held t page_id page
                                parent_id parent_page pos)))))"

text \<open>\<open>RemoveFromParent\<close> (lines 407-488).\<close>

function RemoveFromParent ::
  "int \<Rightarrow> Context \<Rightarrow> int \<Rightarrow> page_id_t list \<Rightarrow> BPlusTree \<Rightarrow> error + BPlusTree" where
  "RemoveFromParent valueIndex ctx index held t =
     (case RemoveFromParent_step valueIndex ctx index held t of
        Inl e \<Rightarrow> Inl e
      | Inr step \<Rightarrow>
          (case step of
             Done t1 \<Rightarrow> Inr t1
           | Recurse valueIndex1 brother_id t1 \<Rightarrow>
               if index - 1 < 0 then Inl OutOfRange
               else RemoveFromParent valueIndex1 ctx (index - 1) (brother_id # held) t1))"
  by pat_completeness auto
termination
  by (relation "measure (\<lambda>(valueIndex, ctx, index, held, t). nat (index + 1))") auto

declare RemoveFromParent.simps [simp del]

text \<open>
  Lines 351-376: the underflowing leaf has a right brother; the brother is merged into the
  leaf, or the leaf borrows the brother's first entry.
\<close>

definition Remove_right_brother ::
  "Context \<Rightarrow> BPlusTree \<Rightarrow> page_id_t \<Rightarrow> BPlusTreePage \<Rightarrow> page_id_t \<Rightarrow> BPlusTreePage \<Rightarrow> int
     \<Rightarrow> error + BPlusTree" where
  "Remove_right_brother ctx t leaf_id leaf_page parent_id parent_page index =
     (let right_brother_page_id = ValueAt parent_page (index + 1) in
      case FetchPageWrite t ctx [] right_brother_page_id of
        Inl e \<Rightarrow> Inl e
      | Inr right_brother_page \<Rightarrow>
          if \<not> IsLeafPage right_brother_page then Inl BadCast
          else
            (let merge_size = GetSize right_brother_page + GetSize leaf_page in
             if merge_size < GetMaxSize leaf_page then
               (let s = GetSize leaf_page;
                    leaf_page = SetSize leaf_page merge_size;
                    leaf_page = copy_slots 0 (GetSize right_brother_page) s
                                  right_brother_page leaf_page;
                    leaf_page = SetNextPageId leaf_page (GetNextPageId right_brother_page)
                in RemoveFromParent (index + 1) ctx (int (length (write_set ctx)) - 2)
                     [right_brother_page_id] (put_page t leaf_id leaf_page))
             else
               (let leaf_page = IncreaseSize leaf_page 1;
                    leaf_page = SetAt leaf_page (GetSize leaf_page - 1)
                                  (KeyAt right_brother_page 0) (ValueAt right_brother_page 0);
                    right_brother_page =
                      shift_down 0 (GetSize right_brother_page - 1) right_brother_page;
                    right_brother_page =
                      SetSize right_brother_page (GetSize right_brother_page - 1);
                    parent_page = SetKeyAt parent_page (index + 1) (KeyAt right_brother_page 0)
                in Inr (put_page
                          (put_page (put_page t leaf_id leaf_page)
                             right_brother_page_id right_brother_page)
                          parent_id parent_page))))"

text \<open>
  Lines 377-403: there is no right brother; the leaf is merged into its left brother, or it
  borrows the left brother's last entry.
\<close>

definition Remove_left_brother ::
  "Context \<Rightarrow> BPlusTree \<Rightarrow> page_id_t \<Rightarrow> BPlusTreePage \<Rightarrow> page_id_t \<Rightarrow> BPlusTreePage \<Rightarrow> int
     \<Rightarrow> error + BPlusTree" where
  "Remove_left_brother ctx t leaf_id leaf_page parent_id parent_page index =
     (let left_brother_page_id = ValueAt parent_page (index - 1) in
      if index - 1 < 0 then Inl OutOfRange
      else
        case FetchPageWrite t ctx [] left_brother_page_id of
          Inl e \<Rightarrow> Inl e
        | Inr left_brother_page \<Rightarrow>
            if \<not> IsLeafPage left_brother_page then Inl BadCast
            else
              (let merge_size = GetSize left_brother_page + GetSize leaf_page in
               if merge_size < GetMaxSize left_brother_page then
                 (let s = GetSize left_brother_page;
                      left_brother_page = SetSize left_brother_page merge_size;
                      left_brother_page =
                        copy_slots 0 (GetSize leaf_page) s leaf_page left_brother_page;
                      left_brother_page =
                        SetNextPageId left_brother_page (GetNextPageId leaf_page)
                  in RemoveFromParent index ctx (int (length (write_set ctx)) - 2)
                       [left_brother_page_id]
                       (put_page (put_page t leaf_id leaf_page)
                          left_brother_page_id left_brother_page))
               else
                 (let leaf_page = IncreaseSize leaf_page 1;
                      leaf_page = shift_right (GetSize leaf_page - 1) 0 leaf_page;
                      leaf_page =
                        SetAt leaf_page 0
                          (KeyAt left_brother_page (GetSize left_brother_page - 1))
                          (ValueAt left_brother_page (GetSize left_brother_page - 1));
                      left_brother_page =
                        SetSize left_brother_page (GetSize left_brother_page - 1);
                      parent_page = SetKeyAt parent_page index (KeyAt leaf_page 0)
                  in Inr (put_page
                            (put_page (put_page t leaf_id leaf_page)
                               left_brother_page_id left_brother_page)
                            parent_id parent_page))))"

text \<open>Lines 319-349: the work at the leaf that the descent reached.\<close>

definition Remove_at_leaf :: "KeyType \<Rightarrow> Context \<Rightarrow> BPlusTree \<Rightarrow> error + BPlusTree" where
  "Remove_at_leaf key ctx t =
     (let leaf_id = last (write_set ctx) in
      case As t leaf_id of
        Inl e \<Rightarrow> Inl e
      | Inr leaf_page \<Rightarrow>
          (let pos = BinaryFind_leaf leaf_page key in
           if pos = -1 \<or> comparator (KeyAt leaf_page pos) key \<noteq> 0 then Inr t
           else
             (let leaf_page = shift_left (pos + 1) (GetSize leaf_page) leaf_page;
                  leaf_page = SetSize leaf_page (GetSize leaf_page - 1)
              in if GetSize leaf_page \<ge> GetMinSize leaf_page
                 then Inr (put_page t leaf_id leaf_page)
                 else if IsRootPage ctx leaf_id then
                   (if GetSize leaf_page = 0
                    then Inr ((put_page t leaf_id leaf_page)\<lparr>root_page_id := INVALID_PAGE_ID\<rparr>)
                    else Inr (put_page t leaf_id leaf_page))
                 else if int (length (write_set ctx)) - 2 < 0 then Inl OutOfRange
                 else
                   (let parent_id = write_set ctx ! nat (int (length (write_set ctx)) - 2) in
                    case As t parent_id of
                      Inl e \<Rightarrow> Inl e
                    | Inr parent_page \<Rightarrow>
                        (let index = BinaryFind_internal parent_page key in
                         if index < GetSize parent_page - 1
                         then Remove_right_brother ctx t leaf_id leaf_page
                                parent_id parent_page index
                         else Remove_left_brother ctx t leaf_id leaf_page
                                parent_id parent_page index)))))"

definition Remove :: "nat \<Rightarrow> KeyType \<Rightarrow> BPlusTree \<Rightarrow> error + BPlusTree" where
  "Remove fuel key t =
     (if root_page_id t = INVALID_PAGE_ID then Inr t
      else
        (case FetchPageWrite t (Context_new\<lparr>header_page := Some ()\<rparr>) [] (root_page_id t) of
           Inl e \<Rightarrow> Inl e
         | Inr root_page \<Rightarrow>
             (case FindLeafPage fuel key Op_Remove t (writer_ctx t root_page Op_Remove) of
                Inl e \<Rightarrow> Inl e
              | Inr ctx \<Rightarrow> Remove_at_leaf key ctx t)))"

section \<open>The iterator's starting points (lines 554-629)\<close>

type_synonym INDEXITERATOR = "page_id_t \<times> int"

definition End :: INDEXITERATOR where
  "End = (-1, -1)"



text \<open>\<open>Begin()\<close> (lines 554-579): down the leftmost children to the first leaf.\<close>

fun Begin_leftmost :: "nat \<Rightarrow> BPlusTree \<Rightarrow> page_id_t \<Rightarrow> error + page_id_t" where
  "Begin_leftmost 0 t guard =
     (case As t guard of
        Inl e \<Rightarrow> Inl e
      | Inr tmp_page \<Rightarrow> if IsLeafPage tmp_page then Inr guard else Inl OutOfFuel)"
| "Begin_leftmost (Suc fuel) t guard =
     (case As t guard of
        Inl e \<Rightarrow> Inl e
      | Inr tmp_page \<Rightarrow>
          if IsLeafPage tmp_page then Inr guard
          else
            (case FetchPageRead t (ValueAt tmp_page 0) of
               Inl e \<Rightarrow> Inl e
             | Inr child \<Rightarrow> Begin_leftmost fuel t (ValueAt tmp_page 0)))"

definition Begin :: "nat \<Rightarrow> BPlusTree \<Rightarrow> error + INDEXITERATOR" where
  "Begin fuel t =
     (if root_page_id t = INVALID_PAGE_ID then Inr End
      else
        (case FetchPageRead t (root_page_id t) of
           Inl e \<Rightarrow> Inl e
         | Inr root_page \<Rightarrow>
             (case Begin_leftmost fuel t (root_page_id t) of
                Inl e \<Rightarrow> Inl e
              | Inr guard \<Rightarrow> Inr (guard, 0))))"

section \<open>The test drivers (lines 651-681)\<close>

text \<open>
  \<open>InsertFromFile\<close> and \<open>RemoveFromFile\<close> with the file's keys as a list: each key is
  inserted with the record identifier made from it, or removed, one after the other.
\<close>

fun InsertFromFile :: "nat \<Rightarrow> KeyType list \<Rightarrow> BPlusTree \<Rightarrow> error + BPlusTree" where
  "InsertFromFile fuel [] t = Inr t"
| "InsertFromFile fuel (key # keys) t =
     (case Insert fuel key key t of
        Inl e \<Rightarrow> Inl e
      | Inr (inserted, t1) \<Rightarrow> InsertFromFile fuel keys t1)"

fun RemoveFromFile :: "nat \<Rightarrow> KeyType list \<Rightarrow> BPlusTree \<Rightarrow> error + BPlusTree" where
  "RemoveFromFile fuel [] t = Inr t"
| "RemoveFromFile fuel (key # keys) t =
     (case Remove fuel key t of
        Inl e \<Rightarrow> Inl e
      | Inr t1 \<Rightarrow> RemoveFromFile fuel keys t1)"

section \<open>The slot loops and the searches in closed form\<close>

lemma copy_slot_simps [simp]:
  "slot_array (copy_slot dst i src j) = (slot_array dst)(i := slot_array src j)"
  "page_size (copy_slot dst i src j) = page_size dst"
  "max_size (copy_slot dst i src j) = max_size dst"
  "page_type (copy_slot dst i src j) = page_type dst"
  "next_page_id (copy_slot dst i src j) = next_page_id dst"
  by (simp_all add: copy_slot_def SetKeyAt_def SetValueAt_def KeyAt_def ValueAt_def fun_eq_iff)

lemma copy_slots_fields [simp]:
  "page_size (copy_slots i to off src dst) = page_size dst"
  "max_size (copy_slots i to off src dst) = max_size dst"
  "page_type (copy_slots i to off src dst) = page_type dst"
  "next_page_id (copy_slots i to off src dst) = next_page_id dst"
  by (induction i to off src dst rule: copy_slots.induct; subst copy_slots.simps; simp)+

lemma slot_array_copy_slots:
  "slot_array (copy_slots i to off src dst) j =
     (if i \<le> j - off \<and> j - off < to then slot_array src (j - off) else slot_array dst j)"
proof (induction i to off src dst rule: copy_slots.induct)
  case (1 i to off src dst)
  show ?case
  proof (cases "i < to")
    case True
    then show ?thesis
      using 1 by (subst copy_slots.simps) auto
  next
    case False
    then show ?thesis
      by (subst copy_slots.simps) auto
  qed
qed

lemma shift_right_fields [simp]:
  "page_size (shift_right i index p) = page_size p"
  "max_size (shift_right i index p) = max_size p"
  "page_type (shift_right i index p) = page_type p"
  "next_page_id (shift_right i index p) = next_page_id p"
  by (induction i index p rule: shift_right.induct; subst shift_right.simps; simp)+

lemma slot_array_shift_right:
  "slot_array (shift_right i index p) j =
     (if index < j \<and> j \<le> i then slot_array p (j - 1) else slot_array p j)"
proof (induction i index p rule: shift_right.induct)
  case (1 i index p)
  show ?case
  proof (cases "i > index")
    case True
    then show ?thesis
      using 1 by (subst shift_right.simps) auto
  next
    case False
    then show ?thesis
      by (subst shift_right.simps) auto
  qed
qed

lemma shift_left_fields [simp]:
  "page_size (shift_left i to p) = page_size p"
  "max_size (shift_left i to p) = max_size p"
  "page_type (shift_left i to p) = page_type p"
  "next_page_id (shift_left i to p) = next_page_id p"
  by (induction i to p rule: shift_left.induct; subst shift_left.simps; simp)+

lemma slot_array_shift_left:
  "slot_array (shift_left i to p) j =
     (if i - 1 \<le> j \<and> j < to - 1 then slot_array p (j + 1) else slot_array p j)"
proof (induction i to p rule: shift_left.induct)
  case (1 i to p)
  show ?case
  proof (cases "i < to")
    case True
    then show ?thesis
      using 1 by (subst shift_left.simps) auto
  next
    case False
    then show ?thesis
      by (subst shift_left.simps) auto
  qed
qed

lemma shift_down_fields [simp]:
  "page_size (shift_down i to p) = page_size p"
  "max_size (shift_down i to p) = max_size p"
  "page_type (shift_down i to p) = page_type p"
  "next_page_id (shift_down i to p) = next_page_id p"
  by (induction i to p rule: shift_down.induct; subst shift_down.simps; simp)+

lemma slot_array_shift_down:
  "slot_array (shift_down i to p) j =
     (if i \<le> j \<and> j < to then slot_array p (j + 1) else slot_array p j)"
proof (induction i to p rule: shift_down.induct)
  case (1 i to p)
  show ?case
  proof (cases "i < to")
    case True
    then show ?thesis
      using 1 by (subst shift_down.simps) auto
  next
    case False
    then show ?thesis
      by (subst shift_down.simps) auto
  qed
qed

lemma mid_bounds: "(l::int) < r \<Longrightarrow> l < (l + r + 1) div 2 \<and> (l + r + 1) div 2 \<le> r"
  by presburger

lemma BinaryFind_loop_range:
  "l \<le> r \<Longrightarrow> l \<le> BinaryFind_loop page key l r \<and> BinaryFind_loop page key l r \<le> r"
proof (induction page key l r rule: BinaryFind_loop.induct)
  case (1 page key l r)
  show ?case
  proof (cases "l < r")
    case True
    define mid where "mid = (l + r + 1) div 2"
    have mid: "l < mid" "mid \<le> r"
      using mid_bounds[OF True] by (simp_all add: mid_def)
    show ?thesis
    proof (cases "comparator (KeyAt page mid) key \<noteq> 1")
      case c: True
      have eq: "BinaryFind_loop page key l r = BinaryFind_loop page key mid r"
        using True c by (subst BinaryFind_loop.simps) (simp add: mid_def Let_def)
      from "1.IH"(1)[OF True mid_def c] mid
      show ?thesis unfolding eq by simp
    next
      case c: False
      have eq: "BinaryFind_loop page key l r = BinaryFind_loop page key l (mid - 1)"
        using True c by (subst BinaryFind_loop.simps) (simp add: mid_def Let_def)
      from "1.IH"(2)[OF True mid_def c] mid
      show ?thesis unfolding eq by simp
    qed
  next
    case False
    then show ?thesis
      using 1(3) by (subst (1 2) BinaryFind_loop.simps) auto
  qed
qed

lemma BinaryFind_loop_empty: "\<not> l < r \<Longrightarrow> BinaryFind_loop page key l r = r"
  by (subst BinaryFind_loop.simps) simp

lemma BinaryFind_internal_range:
  assumes "1 \<le> GetSize p"
  shows "0 \<le> BinaryFind_internal p key \<and> BinaryFind_internal p key < GetSize p"
proof (cases "GetSize p = 1")
  case True
  then show ?thesis
    by (simp add: BinaryFind_internal_def BinaryFind_loop_empty)
next
  case False
  with assms have "1 \<le> GetSize p - 1" by simp
  from BinaryFind_loop_range[OF this, of p key] show ?thesis
    by (auto simp: BinaryFind_internal_def Let_def)
qed

section \<open>The split of an internal page\<close>

text \<open>The first \<open>n\<close> slots of a page, in order.\<close>

definition slots_of :: "BPlusTreePage \<Rightarrow> int \<Rightarrow> (KeyType \<times> int) list" where
  "slots_of p n = map (slot_array p) [0..n - 1]"

text \<open>
  The logical combined sequence of section 4.F: the \<open>max_size\<close> slots of the full parent with
  the new entry put in at position \<open>pos\<close>.
\<close>

definition combined_slots ::
  "BPlusTreePage \<Rightarrow> int \<Rightarrow> KeyType \<Rightarrow> page_id_t \<Rightarrow> (KeyType \<times> int) list" where
  "combined_slots P pos k c =
     take (nat pos) (slots_of P (GetMaxSize P)) @ [(k, c)] @
     drop (nat pos) (slots_of P (GetMaxSize P))"

lemma length_slots_of [simp]: "length (slots_of p n) = nat n"
  by (simp add: slots_of_def)

lemma nth_slots_of: "0 \<le> j \<Longrightarrow> j < n \<Longrightarrow> slots_of p n ! nat j = slot_array p j"
  by (simp add: slots_of_def)

lemma slots_of_eqI:
  assumes "length xs = nat n"
    and "\<And>j. 0 \<le> j \<Longrightarrow> j < n \<Longrightarrow> slot_array p j = xs ! nat j"
  shows "slots_of p n = xs"
proof (rule nth_equalityI)
  show "length (slots_of p n) = length xs" using assms(1) by simp
next
  fix i assume "i < length (slots_of p n)"
  then have i: "int i < n" by simp
  have "slots_of p n ! nat (int i) = slot_array p (int i)"
    by (rule nth_slots_of) (use i in auto)
  with assms(2)[of "int i"] i show "slots_of p n ! i = xs ! i" by simp
qed

lemma length_combined_slots:
  "0 \<le> pos \<Longrightarrow> pos \<le> GetMaxSize P \<Longrightarrow> length (combined_slots P pos k c) = nat (GetMaxSize P + 1)"
  by (simp add: combined_slots_def)

lemma nth_combined_slots:
  assumes "0 \<le> pos" "pos \<le> GetMaxSize P" "0 \<le> j" "j \<le> GetMaxSize P"
  shows "combined_slots P pos k c ! nat j =
           (if j < pos then slot_array P j else if j = pos then (k, c) else slot_array P (j - 1))"
proof -
  have lt: "length (take (nat pos) (slots_of P (GetMaxSize P))) = nat pos"
    using assms by simp
  show ?thesis
  proof (cases "j < pos")
    case True
    then have "combined_slots P pos k c ! nat j = slots_of P (GetMaxSize P) ! nat j"
      using assms by (simp add: combined_slots_def nth_append)
    then show ?thesis using True assms by (simp add: nth_slots_of)
  next
    case False
    show ?thesis
    proof (cases "j = pos")
      case True
      then show ?thesis using assms by (simp add: combined_slots_def nth_append)
    next
      case ne: False
      with False have gt: "pos < j" by simp
      then have "nat j - nat pos = Suc (nat (j - 1) - nat pos)" using assms by linarith
      then have "combined_slots P pos k c ! nat j = slots_of P (GetMaxSize P) ! (nat pos + (nat (j - 1) - nat pos))"
        using assms gt by (simp add: combined_slots_def nth_append)
      also have "nat pos + (nat (j - 1) - nat pos) = nat (j - 1)" using assms gt by linarith
      finally show ?thesis using gt assms by (simp add: nth_slots_of)
    qed
  qed
qed

lemma GetMinSize_bounds: "1 \<le> GetMaxSize P \<Longrightarrow> 1 \<le> GetMinSize P \<and> GetMinSize P \<le> GetMaxSize P"
  by (simp add: GetMinSize_def GetMaxSize_def) presburger


lemma page_op_simps [simp]:
  "GetSize (SetSize p n) = n" "GetMaxSize (SetSize p n) = GetMaxSize p"
  "GetMinSize (SetSize p n) = GetMinSize p"
  "slot_array (SetSize p n) = slot_array p"
  "GetSize (SetKeyAt p i k) = GetSize p" "GetSize (SetValueAt p i v) = GetSize p"
  "GetMaxSize (SetKeyAt p i k) = GetMaxSize p" "GetMaxSize (SetValueAt p i v) = GetMaxSize p"
  "GetMinSize (SetKeyAt p i k) = GetMinSize p" "GetMinSize (SetValueAt p i v) = GetMinSize p"
  "GetSize (shift_right a b p) = GetSize p" "GetMaxSize (shift_right a b p) = GetMaxSize p"
  "GetMinSize (shift_right a b p) = GetMinSize p"
  "GetSize (copy_slots a b off src p) = GetSize p"
  "GetMaxSize (copy_slots a b off src p) = GetMaxSize p"
  "GetMinSize (copy_slots a b off src p) = GetMinSize p"
  by (simp_all add: GetSize_def SetSize_def GetMaxSize_def GetMinSize_def SetKeyAt_def SetValueAt_def)

lemma slot_array_SetKeyAt_SetValueAt:
  "slot_array (SetValueAt (SetKeyAt p i k) i v) = (slot_array p)(i := (k, v))"
  "slot_array (SetKeyAt (SetValueAt p i v) i k) = (slot_array p)(i := (k, v))"
  by (simp_all add: SetKeyAt_def SetValueAt_def fun_eq_iff)

lemma split_pointwise:
  assumes full: "GetSize P = GetMaxSize P" and mx: "1 \<le> GetMaxSize P"
    and sp: "InsertIntoParent_split P N k c = (P', N')"
  shows "GetSize P' = GetMinSize P"
    and "GetSize N' = GetMaxSize P + 1 - GetMinSize P"
    and "0 \<le> j \<Longrightarrow> j < GetMinSize P \<Longrightarrow>
           slot_array P' j = combined_slots P (BinaryFind_internal P k + 1) k c ! nat j"
    and "0 \<le> j \<Longrightarrow> j < GetMaxSize P + 1 - GetMinSize P \<Longrightarrow>
           slot_array N' j =
             combined_slots P (BinaryFind_internal P k + 1) k c ! nat (j + GetMinSize P)"
proof -
  define pos where "pos = BinaryFind_internal P k + 1"
  define m where "m = GetMinSize P"
  have pos: "1 \<le> pos" "pos \<le> GetMaxSize P"
    using BinaryFind_internal_range[of P k] full mx by (auto simp: pos_def)
  have m: "1 \<le> m" "m \<le> GetMaxSize P"
    using GetMinSize_bounds[OF mx] by (auto simp: m_def)
  note nc = nth_combined_slots[of pos P _ k c]
  show "GetSize P' = GetMinSize P"
    using sp by (auto simp: InsertIntoParent_split_def Let_def split: if_splits)
  show "GetSize N' = GetMaxSize P + 1 - GetMinSize P"
    using sp by (auto simp: InsertIntoParent_split_def Let_def split: if_splits)
  show "slot_array P' j = combined_slots P (BinaryFind_internal P k + 1) k c ! nat j"
    if "0 \<le> j" "j < GetMinSize P"
  proof -
    have "combined_slots P pos k c ! nat j =
           (if j < pos then slot_array P j else if j = pos then (k, c) else slot_array P (j - 1))"
      using nc[of j] pos m that by (simp add: m_def)
    moreover have "slot_array P' j =
           (if pos < m then (if j < pos then slot_array P j else if j = pos then (k, c) else slot_array P (j - 1))
            else slot_array P j)"
      using sp that pos m
      by (auto simp: InsertIntoParent_split_def Let_def pos_def[symmetric] m_def[symmetric]
            slot_array_SetKeyAt_SetValueAt slot_array_shift_right split: if_splits)
    ultimately show ?thesis using that by (auto simp: pos_def m_def)
  qed
  show "slot_array N' j =
          combined_slots P (BinaryFind_internal P k + 1) k c ! nat (j + GetMinSize P)"
    if "0 \<le> j" "j < GetMaxSize P + 1 - GetMinSize P"
  proof -
    have "combined_slots P pos k c ! nat (j + m) =
           (if j + m < pos then slot_array P (j + m) else if j + m = pos then (k, c)
            else slot_array P (j + m - 1))"
      using nc[of "j + m"] pos m that by (simp add: m_def)
    moreover have "slot_array N' j =
           (if j + m < pos then slot_array P (j + m) else if j + m = pos then (k, c)
            else slot_array P (j + m - 1))"
    proof -
      have ar: "j - (1 - m) = j + m - 1" "j - 1 + m = j + m - 1" "j - - m = j + m" by simp_all
      show ?thesis
        using sp that pos m full
        by (auto simp: InsertIntoParent_split_def Let_def pos_def[symmetric] m_def[symmetric]
              slot_array_SetKeyAt_SetValueAt slot_array_shift_right slot_array_copy_slots
              KeyAt_def ValueAt_def ar split: if_splits)
    qed
    ultimately show ?thesis by (simp add: pos_def m_def)
  qed
qed


text \<open>A full internal page of maximum size 4, in a pool where it is page 5.\<close>

definition example_parent :: BPlusTreePage where
  "example_parent =
     \<lparr>page_type = INTERNAL_PAGE, page_size = 4, max_size = 4, next_page_id = 0,
      slot_array = (\<lambda>i. if i = 0 then (0, 10) else if i = 1 then (10, 11)
                          else if i = 2 then (20, 12) else if i = 3 then (30, 13) else (0, 0))\<rparr>"

definition example_parent_tree :: BPlusTree where
  "example_parent_tree =
     \<lparr>leaf_max_size = 4, internal_max_size = 4, root_page_id = 5,
      pages = [5 \<mapsto> example_parent], next_new_page = 20\<rparr>"

definition example_ctx :: Context where
  "example_ctx = \<lparr>header_page = Some (), ctx_root_page_id = 5, write_set = [5, 11],
                    read_set = []\<rparr>"

text \<open>
  Claim C6.  When \<open>InsertIntoParent\<close> finds the parent \<open>P\<close> full (its size is its maximum
  size) and the new entry \<open>(k, new_child)\<close> belongs at position
  \<open>pos = BinaryFind(P, k) + 1\<close>, then, wherever \<open>pos\<close> lies relative to \<open>m = min_size\<close>,
  after the split \<open>P\<close> has size \<open>m\<close> and holds the left \<open>m\<close> slots of the combined
  sequence, the new page has size \<open>max_size + 1 - m\<close> and holds the remaining slots
  renumbered from 0, and the key that the recursive call hands to the grandparent is the new
  page's key at slot 0.
\<close>

theorem InsertIntoParent_split_partition:
  assumes "0 \<le> index" and "index < int (length (write_set ctx))"
    and "As t (write_set ctx ! nat index) = Inr P"
    and "GetSize P = GetMaxSize P" and "1 \<le> GetMaxSize P"
    and "InsertIntoParent_split P (Init_internal zero_page (internal_max_size t)) k c = (P', N')"
  shows "GetSize P' = GetMinSize P \<and>
         slots_of P' (GetMinSize P) =
           take (nat (GetMinSize P)) (combined_slots P (BinaryFind_internal P k + 1) k c) \<and>
         GetSize N' = GetMaxSize P + 1 - GetMinSize P \<and>
         slots_of N' (GetMaxSize P + 1 - GetMinSize P) =
           drop (nat (GetMinSize P)) (combined_slots P (BinaryFind_internal P k + 1) k c) \<and>
         InsertIntoParent k c ctx index t =
           InsertIntoParent (KeyAt N' 0) (next_new_page t) ctx (index - 1)
             (put_page (put_page (snd (NewPageGuarded t)) (write_set ctx ! nat index) P')
                (next_new_page t) N')"
proof -
  define pos where "pos = BinaryFind_internal P k + 1"
  define m where "m = GetMinSize P"
  note pw = split_pointwise[OF assms(4,5,6)]
  have pos: "0 \<le> pos" "pos \<le> GetMaxSize P"
    using BinaryFind_internal_range[of P k] assms(4,5) by (auto simp: pos_def)
  have m: "1 \<le> m" "m \<le> GetMaxSize P"
    using GetMinSize_bounds[OF assms(5)] by (auto simp: m_def)
  have len: "length (combined_slots P pos k c) = nat (GetMaxSize P + 1)"
    using length_combined_slots[OF pos] .
  have left: "slots_of P' m = take (nat m) (combined_slots P pos k c)"
  proof (rule slots_of_eqI)
    show "length (take (nat m) (combined_slots P pos k c)) = nat m"
      using len m by simp
  next
    fix j :: int assume j: "0 \<le> j" "j < m"
    then have "take (nat m) (combined_slots P pos k c) ! nat j = combined_slots P pos k c ! nat j"
      by simp
    with pw(3)[of j] j show "slot_array P' j = take (nat m) (combined_slots P pos k c) ! nat j"
      by (simp add: m_def pos_def)
  qed
  have right: "slots_of N' (GetMaxSize P + 1 - m) = drop (nat m) (combined_slots P pos k c)"
  proof (rule slots_of_eqI)
    show "length (drop (nat m) (combined_slots P pos k c)) = nat (GetMaxSize P + 1 - m)"
      using len m by simp
  next
    fix j :: int assume j: "0 \<le> j" "j < GetMaxSize P + 1 - m"
    have "nat m + nat j = nat (j + m)" using j m by simp
    then have "drop (nat m) (combined_slots P pos k c) ! nat j = combined_slots P pos k c ! nat (j + m)"
      using len j m by simp
    with pw(4)[of j] j
    show "slot_array N' j = drop (nat m) (combined_slots P pos k c) ! nat j"
      by (simp add: m_def pos_def)
  qed
  have step: "InsertIntoParent_split_step P (write_set ctx ! nat index) k c t =
                (KeyAt N' 0, next_new_page t,
                 put_page (put_page (snd (NewPageGuarded t)) (write_set ctx ! nat index) P')
                   (next_new_page t) N')"
    using assms(6) by (simp add: InsertIntoParent_split_step_def NewPageGuarded_def)
  have rec: "InsertIntoParent k c ctx index t =
           InsertIntoParent (KeyAt N' 0) (next_new_page t) ctx (index - 1)
             (put_page (put_page (snd (NewPageGuarded t)) (write_set ctx ! nat index) P')
                (next_new_page t) N')"
    using assms(1,2,3,4) by (subst InsertIntoParent.simps) (simp add: step)
  show ?thesis
    using pw(1,2) left right rec by (simp add: m_def pos_def)
qed

text \<open>
  The three cases on the page \<open>example_parent\<close> (keys 10, 20, 30 behind slot 0, so
  \<open>m = 2\<close>): key 5 goes to position 1, key 15 to position 2, key 25 to position 3.
\<close>

theorem InsertIntoParent_split_partition_witness:
  "slots_of (fst (InsertIntoParent_split example_parent (Init_internal zero_page 4) 5 99)) 2
     = [(0, 10), (5, 99)] \<and>
   slots_of (snd (InsertIntoParent_split example_parent (Init_internal zero_page 4) 5 99)) 3
     = [(10, 11), (20, 12), (30, 13)] \<and>
   slots_of (fst (InsertIntoParent_split example_parent (Init_internal zero_page 4) 15 99)) 2
     = [(0, 10), (10, 11)] \<and>
   slots_of (snd (InsertIntoParent_split example_parent (Init_internal zero_page 4) 15 99)) 3
     = [(15, 99), (20, 12), (30, 13)] \<and>
   slots_of (fst (InsertIntoParent_split example_parent (Init_internal zero_page 4) 25 99)) 2
     = [(0, 10), (10, 11)] \<and>
   slots_of (snd (InsertIntoParent_split example_parent (Init_internal zero_page 4) 25 99)) 3
     = [(20, 12), (25, 99), (30, 13)]"
proof -
  have h1: "(0::int) \<le> 0" by simp
  have h2: "0 < int (length (write_set example_ctx))" by (simp add: example_ctx_def)
  have h3: "As example_parent_tree (write_set example_ctx ! nat 0) = Inr example_parent"
    by (simp add: As_def example_parent_tree_def example_ctx_def)
  have h4: "GetSize example_parent = GetMaxSize example_parent"
    by (simp add: GetSize_def GetMaxSize_def example_parent_def)
  have h5: "1 \<le> GetMaxSize example_parent"
    by (simp add: GetMaxSize_def example_parent_def)
  have h6: "InsertIntoParent_split example_parent
              (Init_internal zero_page (internal_max_size example_parent_tree)) k 99 =
            (fst (InsertIntoParent_split example_parent (Init_internal zero_page 4) k 99),
             snd (InsertIntoParent_split example_parent (Init_internal zero_page 4) k 99))" for k
    by (simp add: example_parent_tree_def)
  have min: "GetMinSize example_parent = 2" "GetMaxSize example_parent = 4"
    by (simp_all add: GetMinSize_def GetMaxSize_def example_parent_def)
  have c5: "combined_slots example_parent (BinaryFind_internal example_parent 5 + 1) 5 99 =
              [(0, 10), (5, 99), (10, 11), (20, 12), (30, 13)]"
    by code_simp
  have c15: "combined_slots example_parent (BinaryFind_internal example_parent 15 + 1) 15 99 =
              [(0, 10), (10, 11), (15, 99), (20, 12), (30, 13)]"
    by code_simp
  have c25: "combined_slots example_parent (BinaryFind_internal example_parent 25 + 1) 25 99 =
              [(0, 10), (10, 11), (20, 12), (25, 99), (30, 13)]"
    by code_simp
  show ?thesis
    using InsertIntoParent_split_partition[OF h1 h2 h3 h4 h5 h6[of 5]]
      InsertIntoParent_split_partition[OF h1 h2 h3 h4 h5 h6[of 15]]
      InsertIntoParent_split_partition[OF h1 h2 h3 h4 h5 h6[of 25]]
    by (simp add: min c5 c15 c25)
qed

section \<open>The leaf split and the chain of leaves\<close>

text \<open>
  The split of lines 194-207 in general: both links end up equal to the new page's id, the
  old leaf's by line 199 and the new leaf's by line 202, which reads the link that line 199
  has already overwritten.
\<close>

lemma Insert_split_leaf_links:
  "GetNextPageId (fst (Insert_split_leaf leaf_page new_page_id leaf_max)) = new_page_id \<and>
   GetNextPageId (snd (Insert_split_leaf leaf_page new_page_id leaf_max)) = new_page_id"
  by (simp add: Insert_split_leaf_def Let_def GetNextPageId_def SetNextPageId_def SetSize_def)

text \<open>
  Claim C1 (the code differs).  With both maximum sizes 4, the keys 1, 2, 3 fill the root
  leaf, page 0, whose link is \<open>INVALID_PAGE_ID\<close>.  Inserting key 4 splits it: the new leaf
  is page 1, the old leaf's link becomes 1, and the new leaf's link is 1 as well, its own
  page id, not the link the old leaf had before the split.
\<close>

theorem Insert_split_new_leaf_links_to_itself:
  "(case InsertFromFile 1 [1, 2, 3] (BPlusTree_new 4 4) of
      Inl e \<Rightarrow> False
    | Inr t3 \<Rightarrow>
        root_page_id t3 = 0 \<and>
        map_option IsLeafPage (pages t3 0) = Some True \<and>
        map_option (\<lambda>p. slots_of p (GetSize p)) (pages t3 0) = Some [(1, 1), (2, 2), (3, 3)] \<and>
        map_option GetNextPageId (pages t3 0) = Some INVALID_PAGE_ID \<and>
        (case Insert 1 4 4 t3 of
           Inl e \<Rightarrow> False
         | Inr (inserted, t4) \<Rightarrow>
             inserted \<and>
             map_option IsLeafPage (pages t4 0) = Some True \<and>
             map_option (\<lambda>p. slots_of p (GetSize p)) (pages t4 0) = Some [(1, 1), (2, 2)] \<and>
             map_option IsLeafPage (pages t4 1) = Some True \<and>
             map_option (\<lambda>p. slots_of p (GetSize p)) (pages t4 1) = Some [(3, 3), (4, 4)] \<and>
             map_option GetNextPageId (pages t4 0) = Some 1 \<and>
             map_option GetNextPageId (pages t4 1) = Some 1 \<and>
             map_option GetNextPageId (pages t4 1) \<noteq> map_option GetNextPageId (pages t3 0)))"
  by code_simp

text \<open>
  Following the \<open>next_page_id\<close> links from a leaf: whether a leaf whose link is
  \<open>INVALID_PAGE_ID\<close> is met within \<open>n\<close> steps.
\<close>

fun chain_ends_within :: "nat \<Rightarrow> BPlusTree \<Rightarrow> page_id_t \<Rightarrow> bool" where
  "chain_ends_within 0 t pid =
     (case pages t pid of None \<Rightarrow> False | Some p \<Rightarrow> GetNextPageId p = INVALID_PAGE_ID)"
| "chain_ends_within (Suc n) t pid =
     (case pages t pid of
        None \<Rightarrow> False
      | Some p \<Rightarrow>
          GetNextPageId p = INVALID_PAGE_ID \<or> chain_ends_within n t (GetNextPageId p))"

lemma self_link_never_ends:
  assumes "map_option GetNextPageId (pages t pid) = Some pid" and "pid \<noteq> INVALID_PAGE_ID"
  shows "\<not> chain_ends_within n t pid"
  using assms by (induction n) (auto split: option.splits)

text \<open>
  Claim C2 (the code differs).  After the keys 1, 2, 3, 4 are inserted with both maximum
  sizes 4, the leftmost leaf is page 0 (where \<open>Begin()\<close> starts), its link leads to page 1,
  the leaf with the largest keys, and the link of page 1 leads to page 1 again: the chain of
  links from the leftmost leaf never comes to a leaf whose link is \<open>INVALID_PAGE_ID\<close>.
\<close>

theorem Insert_leaf_chain_never_ends:
  "(case InsertFromFile 1 [1, 2, 3, 4] (BPlusTree_new 4 4) of
      Inl e \<Rightarrow> False
    | Inr t \<Rightarrow>
        Begin 1 t = Inr (0, 0) \<and>
        map_option (\<lambda>p. slots_of p (GetSize p)) (pages t 0) = Some [(1, 1), (2, 2)] \<and>
        map_option (\<lambda>p. slots_of p (GetSize p)) (pages t 1) = Some [(3, 3), (4, 4)] \<and>
        map_option GetNextPageId (pages t 0) = Some 1 \<and>
        map_option GetNextPageId (pages t 1) = Some 1 \<and>
        (\<forall>n. \<not> chain_ends_within n t 0))"
proof -
  have ev: "(case InsertFromFile 1 [1, 2, 3, 4] (BPlusTree_new 4 4) of
      Inl e \<Rightarrow> False
    | Inr t \<Rightarrow>
        Begin 1 t = Inr (0, 0) \<and>
        map_option (\<lambda>p. slots_of p (GetSize p)) (pages t 0) = Some [(1, 1), (2, 2)] \<and>
        map_option (\<lambda>p. slots_of p (GetSize p)) (pages t 1) = Some [(3, 3), (4, 4)] \<and>
        map_option GetNextPageId (pages t 0) = Some 1 \<and>
        map_option GetNextPageId (pages t 1) = Some 1)"
    by code_simp
  show ?thesis
  proof (cases "InsertFromFile 1 [1, 2, 3, 4] (BPlusTree_new 4 4)")
    case (Inl e)
    with ev show ?thesis by simp
  next
    case (Inr t)
    with ev have l0: "map_option GetNextPageId (pages t 0) = Some 1"
      and l1: "map_option GetNextPageId (pages t 1) = Some 1" by simp_all
    have "\<not> chain_ends_within n t 1" for n
      by (rule self_link_never_ends[OF l1]) (simp add: INVALID_PAGE_ID_def)
    then have "\<not> chain_ends_within n t 0" for n
      using l0 by (cases n) (auto simp: INVALID_PAGE_ID_def split: option.splits)
    with ev Inr show ?thesis by simp
  qed
qed

section \<open>The guards held after the descent\<close>

lemma pop_front_while_snoc [simp]: "pop_front_while (xs @ [x]) = [x]"
  by (induction xs rule: pop_front_while.induct) auto

lemma FindLeafPage_Search_header_page:
  "FindLeafPage fuel key Op_Search t ctx = Inr ctx' \<Longrightarrow> header_page ctx' = header_page ctx"
proof (induction fuel arbitrary: ctx)
  case 0
  then show ?case by (auto split: sum.splits if_splits)
next
  case (Suc fuel)
  show ?case
  proof (cases "As t (last (read_set ctx))")
    case (Inl e)
    with Suc.prems show ?thesis by simp
  next
    case (Inr page)
    show ?thesis
    proof (cases "IsLeafPage page")
      case True
      with Suc.prems Inr show ?thesis by simp
    next
      case False
      with Suc.prems Inr
      have "FindLeafPage fuel key Op_Search t
              (ctx\<lparr>read_set := read_set ctx @ [ValueAt page (BinaryFind_internal page key)]\<rparr>)
            = Inr ctx'"
        by (auto simp: Let_def split: sum.splits)
      from Suc.IH[OF this] show ?thesis by simp
    qed
  qed
qed

lemma FindLeafPage_write_header_page:
  "op \<noteq> Op_Search \<Longrightarrow> FindLeafPage fuel key op t ctx = Inr ctx' \<Longrightarrow>
     header_page ctx' = header_page ctx"
proof (induction fuel arbitrary: ctx)
  case 0
  then show ?case by (auto split: sum.splits if_splits)
next
  case (Suc fuel)
  show ?case
  proof (cases "As t (last (write_set ctx))")
    case (Inl e)
    with Suc.prems show ?thesis by simp
  next
    case (Inr page)
    show ?thesis
    proof (cases "IsLeafPage page")
      case True
      with Suc.prems Inr show ?thesis by simp
    next
      case False
      with Suc.prems Inr
      obtain ws where "FindLeafPage fuel key op t (ctx\<lparr>write_set := ws\<rparr>) = Inr ctx'"
        by (auto simp: Let_def split: sum.splits if_splits)
      from Suc.IH[OF Suc.prems(1) this] show ?thesis by simp
    qed
  qed
qed

lemma FindLeafPage_header_page:
  "FindLeafPage fuel key op t ctx = Inr ctx' \<Longrightarrow> header_page ctx' = header_page ctx"
  using FindLeafPage_Search_header_page FindLeafPage_write_header_page
  by (cases "op = Op_Search") blast+

text \<open>
  The index after the keys 1 to 5 are inserted with both maximum sizes 4: the root is the
  internal page 2 with two children, the leaves 0 (keys 1, 2) and 1 (keys 3, 4, 5).
\<close>

definition tree_1_to_5 :: BPlusTree where
  "tree_1_to_5 = projr (InsertFromFile 1 [1, 2, 3, 4, 5] (BPlusTree_new 4 4))"

text \<open>The context with which \<open>Remove\<close> enters the descent when the root is not safe.\<close>

definition ctx_at_root :: "BPlusTree \<Rightarrow> Context" where
  "ctx_at_root t = \<lparr>header_page = Some (), ctx_root_page_id = root_page_id t,
                     write_set = [root_page_id t], read_set = []\<rparr>"

text \<open>
  Claim C4 as stated fails.  In \<open>tree_1_to_5\<close> the root is not safe for a removal (an
  internal root of size 2), so \<open>Remove\<close> enters the descent holding the header guard.  The
  descent for key 5 latches leaf 1, which is safe (three keys, minimum two), and releases the
  root's guard: the write set is the leaf alone, and the header guard is still held.
\<close>

theorem FindLeafPage_safe_child_keeps_header_counterexample:
  "root_page_id tree_1_to_5 = 2 \<and>
   map_option (\<lambda>p. IsSafePage p Op_Remove True) (pages tree_1_to_5 2) = Some False \<and>
   map_option IsLeafPage (pages tree_1_to_5 1) = Some True \<and>
   map_option (\<lambda>p. IsSafePage p Op_Remove False) (pages tree_1_to_5 1) = Some True \<and>
   FindLeafPage 1 5 Op_Remove tree_1_to_5 (ctx_at_root tree_1_to_5) =
     Inr \<lparr>header_page = Some (), ctx_root_page_id = 2, write_set = [1], read_set = []\<rparr>"
  by code_simp

text \<open>
  Claim C4, amended.  During a writer's descent, when the newly latched child is safe for the
  operation, every earlier write guard is released: the descent goes on with the child as
  the only member of the write set.  \<open>FindLeafPage\<close> never changes the header guard: the
  context it answers holds the header guard exactly if the context it was given does.
  \<open>Insert\<close> and \<open>Remove\<close> on a tree that is not empty run the descent from the context
  \<open>writer_ctx\<close> built at lines 159-171 and 308-317 and go on at the leaf with the context that
  the descent answers; so after the descent the header guard is held exactly if the root page
  did not pass the test \<^verbatim>\<open>IsSafePage(root_page, op, true)\<close> made before the descent.
\<close>

theorem writer_descent_guards:
  "(op \<noteq> Op_Search \<longrightarrow> As t (last (write_set ctx)) = Inr page \<longrightarrow> \<not> IsLeafPage page \<longrightarrow>
    FetchPageWrite t ctx [] (ValueAt page (BinaryFind_internal page key)) = Inr child \<longrightarrow>
    IsSafePage child op False \<longrightarrow>
    FindLeafPage (Suc fuel) key op t ctx =
      FindLeafPage fuel key op t
        (ctx\<lparr>write_set := [ValueAt page (BinaryFind_internal page key)]\<rparr>)) \<and>
   (FindLeafPage fuel key op t ctx = Inr ctx' \<longrightarrow> header_page ctx' = header_page ctx) \<and>
   (root_page_id t \<noteq> INVALID_PAGE_ID \<longrightarrow> pages t (root_page_id t) = Some root_page \<longrightarrow>
    Insert fuel key value t =
      (case FindLeafPage fuel key Op_Insert t (writer_ctx t root_page Op_Insert) of
         Inl e \<Rightarrow> Inl e
       | Inr leaf_ctx \<Rightarrow> Insert_at_leaf key value leaf_ctx t) \<and>
    Remove fuel key t =
      (case FindLeafPage fuel key Op_Remove t (writer_ctx t root_page Op_Remove) of
         Inl e \<Rightarrow> Inl e
       | Inr leaf_ctx \<Rightarrow> Remove_at_leaf key leaf_ctx t)) \<and>
   (FindLeafPage fuel key op t (writer_ctx t root_page op) = Inr leaf_ctx \<longrightarrow>
    (header_page leaf_ctx = Some () \<longleftrightarrow> \<not> IsSafePage root_page op True))"
proof -
  have "header_page leaf_ctx = header_page (writer_ctx t root_page op)"
    if "FindLeafPage fuel key op t (writer_ctx t root_page op) = Inr leaf_ctx"
    using FindLeafPage_header_page[OF that] .
  then show ?thesis
    using FindLeafPage_header_page[of fuel key op t ctx ctx']
    by (auto simp: Let_def Insert_def Remove_def FetchPageWrite_def Context_new_def writer_ctx_def)
qed

text \<open>
  \<open>Remove\<close> and \<open>Insert\<close> of key 5 in \<open>tree_1_to_5\<close>.  The root (page 2) is not safe for a
  removal and safe for an insertion; the leaf reached (page 1) is safe for a removal and not
  safe for an insertion.
\<close>

theorem writer_descent_guards_witness:
  "FindLeafPage 2 5 Op_Remove tree_1_to_5 (ctx_at_root tree_1_to_5) =
     FindLeafPage 1 5 Op_Remove tree_1_to_5 ((ctx_at_root tree_1_to_5)\<lparr>write_set := [1]\<rparr>) \<and>
   header_page (projr (FindLeafPage 1 5 Op_Remove tree_1_to_5 (ctx_at_root tree_1_to_5))) = Some () \<and>
   map_option (\<lambda>p. IsSafePage p Op_Remove True) (pages tree_1_to_5 2) = Some False \<and>
   Remove 1 5 tree_1_to_5 =
     Remove_at_leaf 5
       \<lparr>header_page = Some (), ctx_root_page_id = 2, write_set = [1], read_set = []\<rparr>
       tree_1_to_5 \<and>
   map_option (\<lambda>p. IsSafePage p Op_Insert True) (pages tree_1_to_5 2) = Some True \<and>
   Insert 1 5 5 tree_1_to_5 =
     Insert_at_leaf 5 5
       \<lparr>header_page = None, ctx_root_page_id = 2, write_set = [2, 1], read_set = []\<rparr>
       tree_1_to_5"
proof -
  obtain page where root: "pages tree_1_to_5 2 = Some page"
    and nl: "\<not> IsLeafPage page" and v: "ValueAt page (BinaryFind_internal page 5) = 1"
    and unsafe: "\<not> IsSafePage page Op_Remove True" and safe_ins: "IsSafePage page Op_Insert True"
  proof -
    have "case pages tree_1_to_5 2 of
            None \<Rightarrow> False
          | Some page \<Rightarrow> \<not> IsLeafPage page \<and> ValueAt page (BinaryFind_internal page 5) = 1 \<and>
              \<not> IsSafePage page Op_Remove True \<and> IsSafePage page Op_Insert True"
      by code_simp
    then show ?thesis using that by (auto split: option.splits)
  qed
  have rid: "root_page_id tree_1_to_5 = 2" by code_simp
  have page: "As tree_1_to_5 (last (write_set (ctx_at_root tree_1_to_5))) = Inr page"
    using root rid by (simp add: ctx_at_root_def As_def)
  have wctx: "writer_ctx tree_1_to_5 page Op_Remove = ctx_at_root tree_1_to_5"
    using unsafe by (simp add: writer_ctx_def ctx_at_root_def)
  obtain child where child: "FetchPageWrite tree_1_to_5 (ctx_at_root tree_1_to_5) [] 1 = Inr child"
    and safe: "IsSafePage child Op_Remove False"
  proof -
    have "case FetchPageWrite tree_1_to_5 (ctx_at_root tree_1_to_5) [] 1 of
            Inl e \<Rightarrow> False
          | Inr child \<Rightarrow> IsSafePage child Op_Remove False"
      by code_simp
    then show ?thesis using that by (auto split: sum.splits)
  qed
  have run: "FindLeafPage 1 5 Op_Remove tree_1_to_5 (ctx_at_root tree_1_to_5) =
     Inr \<lparr>header_page = Some (), ctx_root_page_id = 2, write_set = [1], read_set = []\<rparr>"
    by code_simp
  have run_ins: "FindLeafPage 1 5 Op_Insert tree_1_to_5
       \<lparr>header_page = None, ctx_root_page_id = 2, write_set = [2], read_set = []\<rparr> =
     Inr \<lparr>header_page = None, ctx_root_page_id = 2, write_set = [2, 1], read_set = []\<rparr>"
    by code_simp
  have wctx_ins: "writer_ctx tree_1_to_5 page Op_Insert =
      \<lparr>header_page = None, ctx_root_page_id = 2, write_set = [2], read_set = []\<rparr>"
    using safe_ins rid by (simp add: writer_ctx_def)
  have hdr: "header_page (ctx_at_root tree_1_to_5) = Some ()"
    by (simp add: ctx_at_root_def)
  have op: "Op_Remove \<noteq> Op_Search" "(2::int) \<noteq> INVALID_PAGE_ID"
    by (simp_all add: INVALID_PAGE_ID_def)
  show ?thesis
    using root rid page nl v child safe run run_ins hdr op wctx wctx_ins unsafe safe_ins
      writer_descent_guards[of Op_Remove tree_1_to_5 "ctx_at_root tree_1_to_5" page 5 child 1
        "\<lparr>header_page = Some (), ctx_root_page_id = 2, write_set = [1], read_set = []\<rparr>"
        page 5
        "\<lparr>header_page = Some (), ctx_root_page_id = 2, write_set = [1], read_set = []\<rparr>"]
    by (simp add: numeral_2_eq_2 del: FindLeafPage.simps)
qed

section \<open>The starting point of a scan from a key\<close>



lemma comparator_le [simp]: "comparator a b \<le> 0 \<longleftrightarrow> a \<le> b"
  by (simp add: comparator_def)

lemma comparator_gt [simp]: "comparator a b = 1 \<longleftrightarrow> b < a"
  by (simp add: comparator_def)

lemma comparator_eq [simp]: "comparator a b = 0 \<longleftrightarrow> a = b"
  by (simp add: comparator_def)












text \<open>The index after the keys 1, 2, 3 are inserted: the root is leaf 0.\<close>

definition tree_1_to_3 :: BPlusTree where
  "tree_1_to_3 = projr (InsertFromFile 1 [1, 2, 3] (BPlusTree_new 4 4))"







section \<open>Pool lookups, the write set after the descent, and writes to pages that are not leaves\<close>

lemma As_eq_Inr [simp]: "As t pid = Inr p \<longleftrightarrow> pages t pid = Some p"
  by (simp add: As_def split: option.splits)

lemma FetchPageRead_eq_Inr [simp]: "FetchPageRead t pid = Inr p \<longleftrightarrow> pages t pid = Some p"
  by (simp add: FetchPageRead_def split: option.splits)

lemma FetchPageWrite_eq_Inr [simp]:
  "FetchPageWrite t ctx held pid = Inr p \<longleftrightarrow>
     pid \<notin> set (write_set ctx) \<and> pid \<notin> set held \<and> pages t pid = Some p"
  by (simp add: FetchPageWrite_def split: option.splits)

lemma put_page_simps [simp]:
  "pages (put_page t pid p) = (pages t)(pid \<mapsto> p)"
  "leaf_max_size (put_page t pid p) = leaf_max_size t"
  "internal_max_size (put_page t pid p) = internal_max_size t"
  "root_page_id (put_page t pid p) = root_page_id t"
  "next_new_page (put_page t pid p) = next_new_page t"
  by (simp_all add: put_page_def)

lemma NewPageGuarded_simps [simp]:
  "fst (NewPageGuarded t) = next_new_page t"
  "pages (snd (NewPageGuarded t)) = (pages t)(next_new_page t \<mapsto> zero_page)"
  "leaf_max_size (snd (NewPageGuarded t)) = leaf_max_size t"
  "internal_max_size (snd (NewPageGuarded t)) = internal_max_size t"
  "root_page_id (snd (NewPageGuarded t)) = root_page_id t"
  "next_new_page (snd (NewPageGuarded t)) = next_new_page t + 1"
  by (simp_all add: NewPageGuarded_def)

text \<open>A page of the pool that is not a leaf.\<close>

definition nonleaf_at :: "BPlusTree \<Rightarrow> page_id_t \<Rightarrow> bool" where
  "nonleaf_at t pid = (\<exists>p. pages t pid = Some p \<and> \<not> IsLeafPage p)"

text \<open>
  What the descent of a writer leaves in the write set: distinct pages, all but the last not
  leaves.
\<close>

definition path_ok :: "BPlusTree \<Rightarrow> page_id_t list \<Rightarrow> bool" where
  "path_ok t ws = (ws \<noteq> [] \<and> distinct ws \<and> (\<forall>w \<in> set (butlast ws). nonleaf_at t w))"

lemma path_ok_single [simp]: "path_ok t [w]"
  by (simp add: path_ok_def)

lemma path_ok_snoc:
  "path_ok t ws \<Longrightarrow> nonleaf_at t (last ws) \<Longrightarrow> c \<notin> set ws \<Longrightarrow> path_ok t (ws @ [c])"
  unfolding path_ok_def
  by (auto simp: butlast_append dest: in_set_butlastD) (metis append_butlast_last_id set_ConsD rotate1.simps(2) set_rotate1)

lemma FindLeafPage_write_path:
  assumes "op \<noteq> Op_Search"
    and "FindLeafPage fuel key op t ctx = Inr ctx'"
    and "path_ok t (write_set ctx)"
  shows "path_ok t (write_set ctx') \<and>
         (\<exists>p. pages t (last (write_set ctx')) = Some p \<and> IsLeafPage p) \<and>
         header_page ctx' = header_page ctx \<and> ctx_root_page_id ctx' = ctx_root_page_id ctx"
  using assms(2,3)
proof (induction fuel arbitrary: ctx)
  case 0
  then show ?case using assms(1) by (auto split: sum.splits if_splits)
next
  case (Suc fuel)
  show ?case
  proof (cases "As t (last (write_set ctx))")
    case (Inl e)
    with Suc.prems assms(1) show ?thesis by simp
  next
    case (Inr page)
    show ?thesis
    proof (cases "IsLeafPage page")
      case True
      with Suc.prems Inr assms(1) show ?thesis by auto
    next
      case False
      define c where "c = ValueAt page (BinaryFind_internal page key)"
      from Suc.prems(1) Inr False assms(1) obtain child where
        child: "c \<notin> set (write_set ctx)" "pages t c = Some child"
        by (auto simp: Let_def c_def split: sum.splits)
      define ctx1 where "ctx1 = (if IsSafePage child op False
                       then ctx\<lparr>write_set := pop_front_while (write_set ctx @ [c])\<rparr>
                       else ctx\<lparr>write_set := write_set ctx @ [c]\<rparr>)"
      have run: "FindLeafPage fuel key op t ctx1 = Inr ctx'"
        using Suc.prems(1) Inr False assms(1) child
        by (simp add: Let_def c_def[symmetric] ctx1_def FetchPageWrite_def)
      have nl: "nonleaf_at t (last (write_set ctx))"
        using Inr False by (auto simp: nonleaf_at_def)
      have "path_ok t (write_set ctx1)"
        using path_ok_snoc[OF Suc.prems(2) nl child(1)] by (simp add: ctx1_def)
      from Suc.IH[OF run this] show ?thesis by (simp add: ctx1_def split: if_splits)
    qed
  qed
qed


text \<open>The pool holds no page at or above the id that the next allocation returns.\<close>

definition alloc_ok :: "BPlusTree \<Rightarrow> bool" where
  "alloc_ok t = (\<forall>i. next_new_page t \<le> i \<longrightarrow> pages t i = None)"

text \<open>
  Every leaf page of the pool carries the tree's leaf maximum and is smaller than it.
\<close>

definition leaf_ok :: "BPlusTree \<Rightarrow> bool" where
  "leaf_ok t =
     (\<forall>pid p. pages t pid = Some p \<and> IsLeafPage p \<longrightarrow>
        GetMaxSize p = leaf_max_size t \<and> GetSize p \<le> leaf_max_size t - 1)"

text \<open>
  A change of the pool that allocates pages and writes pages that are not leaves, and leaves
  the parameters alone.
\<close>

definition pool_step :: "BPlusTree \<Rightarrow> BPlusTree \<Rightarrow> bool" where
  "pool_step t t' =
     (leaf_max_size t' = leaf_max_size t \<and> internal_max_size t' = internal_max_size t \<and>
      next_new_page t \<le> next_new_page t' \<and>
      (\<forall>i. next_new_page t' \<le> i \<longrightarrow> pages t' i = pages t i) \<and>
      (\<forall>pid. pages t' pid = pages t pid \<or> nonleaf_at t' pid))"

lemma pool_step_refl [simp]: "pool_step t t"
  by (simp add: pool_step_def)

lemma pool_step_root [simp]: "pool_step t (t'\<lparr>root_page_id := r\<rparr>) = pool_step t t'"
  by (simp add: pool_step_def nonleaf_at_def)

lemma pool_step_trans: "pool_step t t1 \<Longrightarrow> pool_step t1 t2 \<Longrightarrow> pool_step t t2"
  unfolding pool_step_def nonleaf_at_def
  by (intro conjI allI; (simp; fail | metis order_trans))

lemma pool_step_alloc_ok: "alloc_ok t \<Longrightarrow> pool_step t t' \<Longrightarrow> alloc_ok t'"
  unfolding pool_step_def alloc_ok_def by (metis order_trans)

lemma pool_step_leaf_ok: "leaf_ok t \<Longrightarrow> pool_step t t' \<Longrightarrow> leaf_ok t'"
  unfolding pool_step_def leaf_ok_def nonleaf_at_def by (metis option.inject)

lemma pool_step_nonleaf_at: "nonleaf_at t w \<Longrightarrow> pool_step t t' \<Longrightarrow> nonleaf_at t' w"
  unfolding pool_step_def nonleaf_at_def by metis

lemma alloc_ok_lt: "alloc_ok t \<Longrightarrow> pages t pid = Some p \<Longrightarrow> pid < next_new_page t"
  unfolding alloc_ok_def by (metis linorder_not_less option.distinct(1))

lemma pool_step_put:
  "pid < next_new_page t \<Longrightarrow> \<not> IsLeafPage p \<Longrightarrow> pool_step t (put_page t pid p)"
  by (auto simp: pool_step_def nonleaf_at_def)

lemma pool_step_put_trans:
  "pool_step t t1 \<Longrightarrow> pid < next_new_page t1 \<Longrightarrow> \<not> IsLeafPage p \<Longrightarrow>
     pool_step t (put_page t1 pid p)"
  using pool_step_trans pool_step_put by blast

lemma pool_step_new: "pool_step t (snd (NewPageGuarded t))"
  by (auto simp: pool_step_def nonleaf_at_def zero_page_def IsLeafPage_def)

lemma IsLeafPage_simps [simp]:
  "IsLeafPage (SetSize p n) = IsLeafPage p"
  "IsLeafPage (IncreaseSize p n) = IsLeafPage p"
  "IsLeafPage (SetKeyAt p i k) = IsLeafPage p"
  "IsLeafPage (SetValueAt p i v) = IsLeafPage p"
  "IsLeafPage (SetAt p i k v) = IsLeafPage p"
  "IsLeafPage (SetNextPageId p n) = IsLeafPage p"
  "IsLeafPage (shift_right a b p) = IsLeafPage p"
  "IsLeafPage (shift_left a b p) = IsLeafPage p"
  "IsLeafPage (shift_down a b p) = IsLeafPage p"
  "IsLeafPage (copy_slots a b off src p) = IsLeafPage p"
  "IsLeafPage (Init_leaf p m)"
  "\<not> IsLeafPage (Init_internal p m)"
  by (simp_all add: IsLeafPage_def SetSize_def IncreaseSize_def SetKeyAt_def SetValueAt_def
        SetAt_def SetNextPageId_def Init_leaf_def Init_internal_def)

lemma IsLeafPage_InsertIntoParent_split [simp]:
  "IsLeafPage (fst (InsertIntoParent_split P N k c)) = IsLeafPage P"
  "IsLeafPage (snd (InsertIntoParent_split P N k c)) = IsLeafPage N"
  by (simp_all add: InsertIntoParent_split_def Let_def)

lemma IsLeafPage_InsertIntoParent_no_split [simp]:
  "IsLeafPage (InsertIntoParent_no_split P k c) = IsLeafPage P"
  by (simp add: InsertIntoParent_no_split_def Let_def)

lemma InsertIntoParent_split_step_eq:
  "InsertIntoParent_split_step P pid k c t =
     (KeyAt (snd (InsertIntoParent_split P (Init_internal zero_page (internal_max_size t)) k c)) 0,
      next_new_page t,
      put_page (put_page (snd (NewPageGuarded t)) pid
                  (fst (InsertIntoParent_split P (Init_internal zero_page (internal_max_size t)) k c)))
        (next_new_page t)
        (snd (InsertIntoParent_split P (Init_internal zero_page (internal_max_size t)) k c)))"
  by (simp add: InsertIntoParent_split_step_def NewPageGuarded_def split: prod.splits)

lemma InsertIntoParent_new_root_pool_step:
  "InsertIntoParent_new_root k c ctx index t = Inr t' \<Longrightarrow> pool_step t t'"
  by (auto simp: InsertIntoParent_new_root_def Let_def NewPageGuarded_def pool_step_def
        nonleaf_at_def put_page_def split: if_splits option.splits)

text \<open>The three ways a call of \<open>InsertIntoParent\<close> goes.\<close>

lemma InsertIntoParent_neg:
  "index < 0 \<Longrightarrow>
     InsertIntoParent k c ctx index t = InsertIntoParent_new_root k c ctx index t"
  by (subst InsertIntoParent.simps) simp

lemma InsertIntoParent_out_of_range:
  "0 \<le> index \<Longrightarrow> int (length (write_set ctx)) \<le> index \<Longrightarrow>
     InsertIntoParent k c ctx index t = Inl OutOfRange"
  by (subst InsertIntoParent.simps) simp

lemma InsertIntoParent_missing:
  "0 \<le> index \<Longrightarrow> index < int (length (write_set ctx)) \<Longrightarrow>
   pages t (write_set ctx ! nat index) = None \<Longrightarrow>
     InsertIntoParent k c ctx index t = Inl FetchFailed"
  by (subst InsertIntoParent.simps) (simp add: As_def)

lemma InsertIntoParent_room:
  "0 \<le> index \<Longrightarrow> index < int (length (write_set ctx)) \<Longrightarrow>
   pages t (write_set ctx ! nat index) = Some P \<Longrightarrow> GetSize P \<noteq> GetMaxSize P \<Longrightarrow>
     InsertIntoParent k c ctx index t =
       Inr (put_page t (write_set ctx ! nat index) (InsertIntoParent_no_split P k c))"
  by (subst InsertIntoParent.simps) (simp add: As_def)

definition split_left :: "BPlusTree \<Rightarrow> BPlusTreePage \<Rightarrow> KeyType \<Rightarrow> page_id_t \<Rightarrow> BPlusTreePage" where
  "split_left t P k c =
     fst (InsertIntoParent_split P (Init_internal zero_page (internal_max_size t)) k c)"

definition split_right :: "BPlusTree \<Rightarrow> BPlusTreePage \<Rightarrow> KeyType \<Rightarrow> page_id_t \<Rightarrow> BPlusTreePage" where
  "split_right t P k c =
     snd (InsertIntoParent_split P (Init_internal zero_page (internal_max_size t)) k c)"

definition after_split ::
  "BPlusTree \<Rightarrow> page_id_t \<Rightarrow> BPlusTreePage \<Rightarrow> KeyType \<Rightarrow> page_id_t \<Rightarrow> BPlusTree" where
  "after_split t pid P k c =
     put_page (put_page (snd (NewPageGuarded t)) pid (split_left t P k c))
       (next_new_page t) (split_right t P k c)"

lemma InsertIntoParent_full:
  "0 \<le> index \<Longrightarrow> index < int (length (write_set ctx)) \<Longrightarrow>
   pages t (write_set ctx ! nat index) = Some P \<Longrightarrow> GetSize P = GetMaxSize P \<Longrightarrow>
     InsertIntoParent k c ctx index t =
       InsertIntoParent (KeyAt (split_right t P k c) 0) (next_new_page t) ctx (index - 1)
         (after_split t (write_set ctx ! nat index) P k c)"
  by (subst InsertIntoParent.simps)
     (simp add: As_def InsertIntoParent_split_step_eq split_left_def split_right_def
        after_split_def)

lemma IsLeafPage_split [simp]:
  "IsLeafPage (split_left t P k c) = IsLeafPage P" "\<not> IsLeafPage (split_right t P k c)"
  by (simp_all add: split_left_def split_right_def)

lemma after_split_pool_step:
  "pid < next_new_page t \<Longrightarrow> \<not> IsLeafPage P \<Longrightarrow> pool_step t (after_split t pid P k c)"
  unfolding after_split_def
  by (intro pool_step_put_trans[OF pool_step_put_trans[OF pool_step_new]]) simp_all

text \<open>
  An induction rule for \<open>InsertIntoParent\<close> along the three ways, for a property of a
  successful call.
\<close>

lemma InsertIntoParent_induct_Inr [consumes 1, case_names new_root room full]:
  assumes "InsertIntoParent k c ctx index t = Inr tf"
    and "\<And>k c index t. index < 0 \<Longrightarrow> InsertIntoParent_new_root k c ctx index t = Inr tf \<Longrightarrow>
           Q k c index t"
    and "\<And>k c index t P. 0 \<le> index \<Longrightarrow> index < int (length (write_set ctx)) \<Longrightarrow>
           pages t (write_set ctx ! nat index) = Some P \<Longrightarrow> GetSize P \<noteq> GetMaxSize P \<Longrightarrow>
           tf = put_page t (write_set ctx ! nat index) (InsertIntoParent_no_split P k c) \<Longrightarrow>
           Q k c index t"
    and "\<And>k c index t P. 0 \<le> index \<Longrightarrow> index < int (length (write_set ctx)) \<Longrightarrow>
           pages t (write_set ctx ! nat index) = Some P \<Longrightarrow> GetSize P = GetMaxSize P \<Longrightarrow>
           InsertIntoParent (KeyAt (split_right t P k c) 0) (next_new_page t) ctx (index - 1)
             (after_split t (write_set ctx ! nat index) P k c) = Inr tf \<Longrightarrow>
           Q (KeyAt (split_right t P k c) 0) (next_new_page t) (index - 1)
             (after_split t (write_set ctx ! nat index) P k c) \<Longrightarrow>
           Q k c index t"
  shows "Q k c index t"
  using assms(1)
proof (induction "nat (index + 1)" arbitrary: k c index t rule: less_induct)
  case less
  show ?case
  proof (cases "index < 0")
    case True
    with less.prems have "InsertIntoParent_new_root k c ctx index t = Inr tf"
      by (simp add: InsertIntoParent_neg)
    with True show ?thesis by (rule assms(2))
  next
    case nonneg: False
    show ?thesis
    proof (cases "int (length (write_set ctx)) \<le> index")
      case True
      with less.prems nonneg show ?thesis by (simp add: InsertIntoParent_out_of_range)
    next
      case inr: False
      show ?thesis
      proof (cases "pages t (write_set ctx ! nat index)")
        case None
        with less.prems nonneg inr show ?thesis by (simp add: InsertIntoParent_missing)
      next
        case (Some P)
        show ?thesis
        proof (cases "GetSize P \<noteq> GetMaxSize P")
          case True
          have "tf = put_page t (write_set ctx ! nat index) (InsertIntoParent_no_split P k c)"
            using less.prems nonneg inr Some True by (simp add: InsertIntoParent_room)
          with nonneg inr Some True show ?thesis
            by (intro assms(3)[of index t P]) simp_all
        next
          case full: False
          have rec: "InsertIntoParent (KeyAt (split_right t P k c) 0)
                       (next_new_page t) ctx (index - 1)
                       (after_split t (write_set ctx ! nat index) P k c) = Inr tf"
            using less.prems nonneg inr Some full by (simp add: InsertIntoParent_full)
          have "Q (KeyAt (split_right t P k c) 0) (next_new_page t) (index - 1)
                  (after_split t (write_set ctx ! nat index) P k c)"
            using nonneg by (intro less.hyps rec) simp
          with nonneg inr Some full rec show ?thesis
            by (intro assms(4)[of index t P]) simp_all
        qed
      qed
    qed
  qed
qed

lemma InsertIntoParent_pool_step:
  assumes "InsertIntoParent k c ctx index t = Inr tf"
    and "alloc_ok t"
    and "\<forall>j. 0 \<le> j \<and> j \<le> index \<and> j < int (length (write_set ctx)) \<longrightarrow>
            nonleaf_at t (write_set ctx ! nat j)"
  shows "pool_step t tf"
  using assms
proof (induction rule: InsertIntoParent_induct_Inr)
  case (new_root k c index t)
  then show ?case by (simp add: InsertIntoParent_new_root_pool_step)
next
  case (room k c index t P)
  then have "nonleaf_at t (write_set ctx ! nat index)" by simp
  with room(3) have "\<not> IsLeafPage P" by (simp add: nonleaf_at_def)
  with alloc_ok_lt[OF room(6,3)] room(5) show ?case by (simp add: pool_step_put)
next
  case (full k c index t P)
  then have "nonleaf_at t (write_set ctx ! nat index)" by simp
  with full(3) have nl: "\<not> IsLeafPage P" by (simp add: nonleaf_at_def)
  have ps: "pool_step t (after_split t (write_set ctx ! nat index) P k c)"
    using alloc_ok_lt[OF full(7,3)] nl by (rule after_split_pool_step)
  have "pool_step (after_split t (write_set ctx ! nat index) P k c) tf"
  proof (rule full(6))
    show "alloc_ok (after_split t (write_set ctx ! nat index) P k c)"
      using pool_step_alloc_ok[OF full(7) ps] .
    show "\<forall>j. 0 \<le> j \<and> j \<le> index - 1 \<and> j < int (length (write_set ctx)) \<longrightarrow>
            nonleaf_at (after_split t (write_set ctx ! nat index) P k c) (write_set ctx ! nat j)"
      using full(8) pool_step_nonleaf_at[OF _ ps] by auto
  qed
  with ps show ?case by (rule pool_step_trans)
qed


lemma page_op_more_simps [simp]:
  "GetSize (IncreaseSize p d) = GetSize p + d"
  "GetMaxSize (IncreaseSize p d) = GetMaxSize p"
  "GetMinSize (IncreaseSize p d) = GetMinSize p"
  "slot_array (IncreaseSize p d) = slot_array p"
  "GetSize (SetAt p i k v) = GetSize p"
  "GetMaxSize (SetAt p i k v) = GetMaxSize p"
  "GetMinSize (SetAt p i k v) = GetMinSize p"
  "GetSize (SetNextPageId p n) = GetSize p"
  "GetMaxSize (SetNextPageId p n) = GetMaxSize p"
  "GetMinSize (SetNextPageId p n) = GetMinSize p"
  "slot_array (SetNextPageId p n) = slot_array p"
  "GetSize (shift_left a b p) = GetSize p"
  "GetMaxSize (shift_left a b p) = GetMaxSize p"
  "GetMinSize (shift_left a b p) = GetMinSize p"
  "GetSize (shift_down a b p) = GetSize p"
  "GetMaxSize (shift_down a b p) = GetMaxSize p"
  "GetMinSize (shift_down a b p) = GetMinSize p"
  "GetSize (Init_leaf p m) = 0" "GetMaxSize (Init_leaf p m) = m"
  "GetSize (Init_internal p m) = 0" "GetMaxSize (Init_internal p m) = m"
  "GetNextPageId (SetNextPageId p n) = n"
  "GetNextPageId (SetSize p m) = GetNextPageId p"
  by (simp_all add: GetSize_def GetMaxSize_def GetMinSize_def IncreaseSize_def SetAt_def
        SetNextPageId_def Init_leaf_def Init_internal_def GetNextPageId_def SetSize_def)

lemma Insert_into_leaf_fields [simp]:
  "IsLeafPage (Insert_into_leaf p i k v) = IsLeafPage p"
  "GetMaxSize (Insert_into_leaf p i k v) = GetMaxSize p"
  "GetMinSize (Insert_into_leaf p i k v) = GetMinSize p"
  "GetSize (Insert_into_leaf p i k v) = GetSize p + 1"
  by (simp_all add: Insert_into_leaf_def Let_def)

lemma Insert_split_leaf_fields [simp]:
  "IsLeafPage (fst (Insert_split_leaf p n lm)) = IsLeafPage p"
  "GetMaxSize (fst (Insert_split_leaf p n lm)) = GetMaxSize p"
  "GetSize (fst (Insert_split_leaf p n lm)) = GetMinSize p"
  "IsLeafPage (snd (Insert_split_leaf p n lm))"
  "GetMaxSize (snd (Insert_split_leaf p n lm)) = lm"
  "GetSize (snd (Insert_split_leaf p n lm)) = GetSize p - GetMinSize p"
  by (simp_all add: Insert_split_leaf_def Let_def)

lemma leaf_ok_put:
  "leaf_ok t \<Longrightarrow> (IsLeafPage p \<longrightarrow> GetMaxSize p = leaf_max_size t \<and> GetSize p \<le> leaf_max_size t - 1)
     \<Longrightarrow> leaf_ok (put_page t pid p)"
  by (auto simp: leaf_ok_def)

lemma alloc_ok_put: "alloc_ok t \<Longrightarrow> pid < next_new_page t \<Longrightarrow> alloc_ok (put_page t pid p)"
  by (auto simp: alloc_ok_def)

lemma alloc_ok_new: "alloc_ok t \<Longrightarrow> alloc_ok (snd (NewPageGuarded t))"
  by (auto simp: alloc_ok_def)

lemma leaf_ok_new: "leaf_ok t \<Longrightarrow> leaf_ok (snd (NewPageGuarded t))"
  by (auto simp: leaf_ok_def zero_page_def IsLeafPage_def)

lemma leaf_ok_root [simp]: "leaf_ok (t\<lparr>root_page_id := r\<rparr>) = leaf_ok t"
  by (simp add: leaf_ok_def)

lemma alloc_ok_root [simp]: "alloc_ok (t\<lparr>root_page_id := r\<rparr>) = alloc_ok t"
  by (simp add: alloc_ok_def)

lemma min_lt_max: "2 \<le> GetMaxSize p \<Longrightarrow> 1 \<le> GetMinSize p \<and> GetMinSize p \<le> GetMaxSize p - 1"
  by (simp add: GetMinSize_def GetMaxSize_def) presburger

lemma path_ok_nth_nonleaf:
  assumes "path_ok t ws" and "0 \<le> j" and "j \<le> int (length ws) - 2"
  shows "nonleaf_at t (ws ! nat j)" and "ws ! nat j \<noteq> last ws"
proof -
  have j: "nat j < length ws - 1" using assms(2,3) by linarith
  then have "ws ! nat j = butlast ws ! nat j" by (simp add: nth_butlast)
  moreover have "butlast ws ! nat j \<in> set (butlast ws)" using j by simp
  ultimately show "nonleaf_at t (ws ! nat j)" using assms(1) by (simp add: path_ok_def)
  have "ws \<noteq> []" "distinct ws" using assms(1) by (simp_all add: path_ok_def)
  then have "last ws = ws ! (length ws - 1)" by (simp add: last_conv_nth)
  moreover have "nat j \<noteq> length ws - 1" using j by simp
  ultimately show "ws ! nat j \<noteq> last ws"
    using \<open>distinct ws\<close> j by (simp add: nth_eq_iff_index_eq)
qed

text \<open>The two writers, with the context of the descent and the work at the leaf written out.\<close>

lemma Insert_unfold:
  "Insert fuel key value t =
     (if root_page_id t = INVALID_PAGE_ID then
        (let (new_root_id, t1) = NewPageGuarded t;
             leaf_page = Init_leaf zero_page (leaf_max_size t);
             leaf_page = SetSize leaf_page 1;
             leaf_page = SetAt leaf_page 0 key value
         in Inr (True, (put_page t1 new_root_id leaf_page)\<lparr>root_page_id := new_root_id\<rparr>))
      else
        (case FetchPageWrite t (Context_new\<lparr>header_page := Some ()\<rparr>) [] (root_page_id t) of
           Inl e \<Rightarrow> Inl e
         | Inr root_page \<Rightarrow>
             (case FindLeafPage fuel key Op_Insert t
                     \<lparr>header_page =
                        (if IsSafePage root_page Op_Insert True then None else Some ()),
                      ctx_root_page_id = root_page_id t,
                      write_set = [root_page_id t], read_set = []\<rparr> of
                Inl e \<Rightarrow> Inl e
              | Inr ctx \<Rightarrow>
                  (case As t (last (write_set ctx)) of
                     Inl e \<Rightarrow> Inl e
                   | Inr leaf_page \<Rightarrow>
                       (let index = BinaryFind_leaf leaf_page key in
                        if index \<noteq> -1 \<and> comparator (KeyAt leaf_page index) key = 0
                        then Inr (False, t)
                        else
                          (let leaf_page = Insert_into_leaf leaf_page index key value in
                           if GetSize leaf_page < GetMaxSize leaf_page
                           then Inr (True, put_page t (last (write_set ctx)) leaf_page)
                           else
                             (let (new_page_id, t1) = NewPageGuarded t;
                                  (leaf_page, new_leaf_page) =
                                     Insert_split_leaf leaf_page new_page_id (leaf_max_size t);
                                  split_key = KeyAt new_leaf_page 0
                              in case InsertIntoParent split_key new_page_id ctx
                                        (int (length (write_set ctx)) - 2)
                                        (put_page (put_page t1 (last (write_set ctx)) leaf_page)
                                           new_page_id new_leaf_page) of
                                   Inl e \<Rightarrow> Inl e
                                 | Inr t2 \<Rightarrow> Inr (True, t2))))))))"
  unfolding Insert_def Insert_at_leaf_def writer_ctx_def by (rule refl)

lemma Remove_unfold:
  "Remove fuel key t =
     (if root_page_id t = INVALID_PAGE_ID then Inr t
      else
        (case FetchPageWrite t (Context_new\<lparr>header_page := Some ()\<rparr>) [] (root_page_id t) of
           Inl e \<Rightarrow> Inl e
         | Inr root_page \<Rightarrow>
             (case FindLeafPage fuel key Op_Remove t
                     \<lparr>header_page =
                        (if IsSafePage root_page Op_Remove True then None else Some ()),
                      ctx_root_page_id = root_page_id t,
                      write_set = [root_page_id t], read_set = []\<rparr> of
                Inl e \<Rightarrow> Inl e
              | Inr ctx \<Rightarrow> Remove_at_leaf key ctx t)))"
  unfolding Remove_def writer_ctx_def by (rule refl)

text \<open>The ways a call of \<open>Insert\<close> succeeds.\<close>

lemma Insert_cases [consumes 1, case_names first duplicate room split]:
  assumes "Insert fuel key value t = Inr (b, tf)"
    and "root_page_id t = INVALID_PAGE_ID \<Longrightarrow> b \<Longrightarrow>
           tf = (put_page (snd (NewPageGuarded t)) (next_new_page t)
                   (SetAt (SetSize (Init_leaf zero_page (leaf_max_size t)) 1) 0 key value))
                \<lparr>root_page_id := next_new_page t\<rparr> \<Longrightarrow> R"
    and "\<And>root_page ctx leaf_page.
           root_page_id t \<noteq> INVALID_PAGE_ID \<Longrightarrow> pages t (root_page_id t) = Some root_page \<Longrightarrow>
           FindLeafPage fuel key Op_Insert t (writer_ctx t root_page Op_Insert) = Inr ctx \<Longrightarrow>
           pages t (last (write_set ctx)) = Some leaf_page \<Longrightarrow>
           BinaryFind_leaf leaf_page key \<noteq> -1 \<Longrightarrow>
           KeyAt leaf_page (BinaryFind_leaf leaf_page key) = key \<Longrightarrow>
           \<not> b \<Longrightarrow> tf = t \<Longrightarrow> R"
    and "\<And>root_page ctx leaf_page.
           root_page_id t \<noteq> INVALID_PAGE_ID \<Longrightarrow> pages t (root_page_id t) = Some root_page \<Longrightarrow>
           FindLeafPage fuel key Op_Insert t (writer_ctx t root_page Op_Insert) = Inr ctx \<Longrightarrow>
           pages t (last (write_set ctx)) = Some leaf_page \<Longrightarrow>
           BinaryFind_leaf leaf_page key = -1 \<or>
             KeyAt leaf_page (BinaryFind_leaf leaf_page key) \<noteq> key \<Longrightarrow>
           GetSize leaf_page + 1 < GetMaxSize leaf_page \<Longrightarrow> b \<Longrightarrow>
           tf = put_page t (last (write_set ctx))
                  (Insert_into_leaf leaf_page (BinaryFind_leaf leaf_page key) key value) \<Longrightarrow> R"
    and "\<And>root_page ctx leaf_page.
           root_page_id t \<noteq> INVALID_PAGE_ID \<Longrightarrow> pages t (root_page_id t) = Some root_page \<Longrightarrow>
           FindLeafPage fuel key Op_Insert t (writer_ctx t root_page Op_Insert) = Inr ctx \<Longrightarrow>
           pages t (last (write_set ctx)) = Some leaf_page \<Longrightarrow>
           BinaryFind_leaf leaf_page key = -1 \<or>
             KeyAt leaf_page (BinaryFind_leaf leaf_page key) \<noteq> key \<Longrightarrow>
           \<not> GetSize leaf_page + 1 < GetMaxSize leaf_page \<Longrightarrow> b \<Longrightarrow>
           InsertIntoParent
             (KeyAt (snd (Insert_split_leaf
                (Insert_into_leaf leaf_page (BinaryFind_leaf leaf_page key) key value)
                (next_new_page t) (leaf_max_size t))) 0)
             (next_new_page t) ctx (int (length (write_set ctx)) - 2)
             (put_page
                (put_page (snd (NewPageGuarded t)) (last (write_set ctx))
                   (fst (Insert_split_leaf
                      (Insert_into_leaf leaf_page (BinaryFind_leaf leaf_page key) key value)
                      (next_new_page t) (leaf_max_size t))))
                (next_new_page t)
                (snd (Insert_split_leaf
                   (Insert_into_leaf leaf_page (BinaryFind_leaf leaf_page key) key value)
                   (next_new_page t) (leaf_max_size t)))) = Inr tf \<Longrightarrow> R"
  shows R
proof (cases "root_page_id t = INVALID_PAGE_ID")
  case True
  with assms(1) show R
    by (intro assms(2)) (auto simp: Insert_unfold Let_def NewPageGuarded_def split: prod.splits)
next
  case False
  with assms(1) obtain root_page where rp: "pages t (root_page_id t) = Some root_page"
    by (auto simp: Insert_unfold FetchPageWrite_def Context_new_def split: sum.splits option.splits)
  then have fw: "FetchPageWrite t (Context_new\<lparr>header_page := Some ()\<rparr>) [] (root_page_id t)
                  = Inr root_page"
    by (simp add: Context_new_def)
  from assms(1) False fw obtain ctx where
    ctx: "FindLeafPage fuel key Op_Insert t (writer_ctx t root_page Op_Insert) = Inr ctx"
    by (auto simp: Insert_unfold writer_ctx_def split: sum.splits)
  from assms(1) False fw ctx obtain leaf_page where
    lp: "pages t (last (write_set ctx)) = Some leaf_page"
    by (auto simp: Insert_unfold writer_ctx_def As_def split: sum.splits option.splits)
  then have as: "As t (last (write_set ctx)) = Inr leaf_page" by simp
  note unfold = Insert_unfold writer_ctx_def[symmetric] fw ctx as Let_def
  show R
  proof (cases "BinaryFind_leaf leaf_page key \<noteq> -1 \<and>
                KeyAt leaf_page (BinaryFind_leaf leaf_page key) = key")
    case True
    with assms(1) False show R
      by (intro assms(3)[OF False rp ctx lp]) (auto simp: unfold)
  next
    case nf: False
    then have nf': "BinaryFind_leaf leaf_page key = -1 \<or>
             KeyAt leaf_page (BinaryFind_leaf leaf_page key) \<noteq> key" by auto
    show R
    proof (cases "GetSize leaf_page + 1 < GetMaxSize leaf_page")
      case True
      with assms(1) False nf show R
        by (intro assms(4)[OF False rp ctx lp nf']) (auto simp: unfold)
    next
      case full: False
      with assms(1) False nf show R
        by (intro assms(5)[OF False rp ctx lp nf' full])
           (auto simp: unfold NewPageGuarded_def split: prod.splits sum.splits)
    qed
  qed
qed


section \<open>The page changes of a removal\<close>

text \<open>A slot taken out of a page (lines 411-415 and 327-330).\<close>

definition removed_slot :: "BPlusTreePage \<Rightarrow> int \<Rightarrow> BPlusTreePage" where
  "removed_slot page i = SetSize (shift_left (i + 1) (GetSize page) page) (GetSize page - 1)"

text \<open>The slots of \<open>src\<close> put behind those of \<open>dst\<close> (the merges).\<close>

definition merged_pages :: "BPlusTreePage \<Rightarrow> BPlusTreePage \<Rightarrow> BPlusTreePage" where
  "merged_pages dst src =
     copy_slots 0 (GetSize src) (GetSize dst) src (SetSize dst (GetSize dst + GetSize src))"

text \<open>A page that has taken the first slot of its right brother, and the brother after it.\<close>

definition borrowed_from_right :: "BPlusTreePage \<Rightarrow> BPlusTreePage \<Rightarrow> BPlusTreePage" where
  "borrowed_from_right page rb =
     SetAt (IncreaseSize page 1) (GetSize page) (KeyAt rb 0) (ValueAt rb 0)"

definition lent_first :: "BPlusTreePage \<Rightarrow> BPlusTreePage" where
  "lent_first rb = SetSize (shift_down 0 (GetSize rb - 1) rb) (GetSize rb - 1)"

text \<open>A page that has taken the last slot of its left brother, and the brother after it.\<close>

definition borrowed_from_left :: "BPlusTreePage \<Rightarrow> BPlusTreePage \<Rightarrow> BPlusTreePage" where
  "borrowed_from_left page lb =
     SetAt (shift_right (GetSize page) 0 (IncreaseSize page 1)) 0
       (KeyAt lb (GetSize lb - 1)) (ValueAt lb (GetSize lb - 1))"

definition lent_last :: "BPlusTreePage \<Rightarrow> BPlusTreePage" where
  "lent_last lb = SetSize lb (GetSize lb - 1)"

lemma merged_pages_alt:
  "copy_slots 0 (GetSize src) (GetSize dst) src (SetSize dst (GetSize src + GetSize dst)) =
     merged_pages dst src"
  by (simp add: merged_pages_def add.commute)

lemma SetValueAt_SetKeyAt_SetAt: "SetValueAt (SetKeyAt p i k) i v = SetAt p i k v"
  by (simp add: SetValueAt_def SetKeyAt_def SetAt_def)

fun step_state :: "remove_step \<Rightarrow> BPlusTree" where
  "step_state (Done t) = t"
| "step_state (Recurse i b t) = t"

lemma RemoveFromParent_right_brother_cases [consumes 1, case_names merge borrow]:
  assumes "RemoveFromParent_right_brother ctx held t page_id page parent_id parent_page pos = Inr r"
    and "\<And>rb. ValueAt parent_page (pos + 1) \<notin> set (write_set ctx) \<Longrightarrow>
           ValueAt parent_page (pos + 1) \<notin> set held \<Longrightarrow>
           pages t (ValueAt parent_page (pos + 1)) = Some rb \<Longrightarrow> \<not> IsLeafPage rb \<Longrightarrow>
           GetSize rb + GetSize page \<le> GetMaxSize page \<Longrightarrow>
           r = Recurse (pos + 1) (ValueAt parent_page (pos + 1))
                 (put_page t page_id (merged_pages page rb)) \<Longrightarrow> R"
    and "\<And>rb. ValueAt parent_page (pos + 1) \<notin> set (write_set ctx) \<Longrightarrow>
           ValueAt parent_page (pos + 1) \<notin> set held \<Longrightarrow>
           pages t (ValueAt parent_page (pos + 1)) = Some rb \<Longrightarrow> \<not> IsLeafPage rb \<Longrightarrow>
           \<not> GetSize rb + GetSize page \<le> GetMaxSize page \<Longrightarrow>
           r = Done (put_page
                      (put_page (put_page t page_id (borrowed_from_right page rb))
                         (ValueAt parent_page (pos + 1)) (lent_first rb))
                      parent_id
                      (SetKeyAt parent_page (pos + 1) (KeyAt (lent_first rb) 0))) \<Longrightarrow> R"
  shows R
proof -
  define rid where "rid = ValueAt parent_page (pos + 1)"
  from assms(1) obtain rb where
    rb: "rid \<notin> set (write_set ctx)" "rid \<notin> set held" "pages t rid = Some rb" "\<not> IsLeafPage rb"
    by (auto simp: RemoveFromParent_right_brother_def Let_def rid_def FetchPageWrite_def
          split: sum.splits if_splits option.splits)
  then have fw: "FetchPageWrite t ctx held rid = Inr rb" by simp
  show R
  proof (cases "GetSize rb + GetSize page \<le> GetMaxSize page")
    case True
    have "r = Recurse (pos + 1) rid (put_page t page_id
                 (copy_slots 0 (GetSize rb) (GetSize page) rb
                    (SetSize page (GetSize rb + GetSize page))))"
      using assms(1) rb(4) True
      by (simp add: RemoveFromParent_right_brother_def Let_def rid_def[symmetric] fw)
    then have "r = Recurse (pos + 1) rid (put_page t page_id (merged_pages page rb))"
      by (simp only: merged_pages_alt)
    with rb True show R by (intro assms(2)[of rb]) (simp_all add: rid_def)
  next
    case False
    have "r = Done (put_page
                      (put_page (put_page t page_id (borrowed_from_right page rb)) rid
                         (lent_first rb))
                      parent_id (SetKeyAt parent_page (pos + 1) (KeyAt (lent_first rb) 0)))"
      using assms(1) rb(4) False
      by (simp add: RemoveFromParent_right_brother_def Let_def rid_def[symmetric] fw
            borrowed_from_right_def lent_first_def SetValueAt_SetKeyAt_SetAt)
    with rb False show R by (intro assms(3)[of rb]) (simp_all add: rid_def)
  qed
qed

lemma RemoveFromParent_left_brother_cases [consumes 1, case_names merge borrow]:
  assumes "RemoveFromParent_left_brother ctx held t page_id page parent_id parent_page pos = Inr r"
    and "\<And>lb. 0 \<le> pos - 1 \<Longrightarrow> ValueAt parent_page (pos - 1) \<notin> set (write_set ctx) \<Longrightarrow>
           ValueAt parent_page (pos - 1) \<notin> set held \<Longrightarrow>
           pages t (ValueAt parent_page (pos - 1)) = Some lb \<Longrightarrow> \<not> IsLeafPage lb \<Longrightarrow>
           GetSize lb + GetSize page \<le> GetMaxSize lb \<Longrightarrow>
           r = Recurse pos (ValueAt parent_page (pos - 1))
                 (put_page (put_page t page_id page) (ValueAt parent_page (pos - 1))
                    (merged_pages lb page)) \<Longrightarrow> R"
    and "\<And>lb. 0 \<le> pos - 1 \<Longrightarrow> ValueAt parent_page (pos - 1) \<notin> set (write_set ctx) \<Longrightarrow>
           ValueAt parent_page (pos - 1) \<notin> set held \<Longrightarrow>
           pages t (ValueAt parent_page (pos - 1)) = Some lb \<Longrightarrow> \<not> IsLeafPage lb \<Longrightarrow>
           \<not> GetSize lb + GetSize page \<le> GetMaxSize lb \<Longrightarrow>
           r = Done (put_page
                      (put_page (put_page t page_id (borrowed_from_left page lb))
                         (ValueAt parent_page (pos - 1)) (lent_last lb))
                      parent_id
                      (SetKeyAt parent_page pos (KeyAt (borrowed_from_left page lb) 0))) \<Longrightarrow> R"
  shows R
proof -
  define lid where "lid = ValueAt parent_page (pos - 1)"
  from assms(1) obtain lb where pos: "0 \<le> pos - 1" and
    lb: "lid \<notin> set (write_set ctx)" "lid \<notin> set held" "pages t lid = Some lb" "\<not> IsLeafPage lb"
    by (auto simp: RemoveFromParent_left_brother_def Let_def lid_def FetchPageWrite_def
          split: sum.splits if_splits option.splits)
  then have fw: "FetchPageWrite t ctx held lid = Inr lb" by simp
  show R
  proof (cases "GetSize lb + GetSize page \<le> GetMaxSize lb")
    case True
    have "r = Recurse pos lid (put_page (put_page t page_id page) lid (merged_pages lb page))"
      using assms(1) lb(4) True pos
      by (simp add: RemoveFromParent_left_brother_def Let_def lid_def[symmetric] fw
            merged_pages_def)
    with lb True pos show R by (intro assms(2)[of lb]) (simp_all add: lid_def)
  next
    case False
    have "r = Done (put_page
                      (put_page (put_page t page_id (borrowed_from_left page lb)) lid
                         (lent_last lb))
                      parent_id (SetKeyAt parent_page pos (KeyAt (borrowed_from_left page lb) 0)))"
      using assms(1) lb(4) False pos
      by (simp add: RemoveFromParent_left_brother_def Let_def lid_def[symmetric] fw
            borrowed_from_left_def lent_last_def SetValueAt_SetKeyAt_SetAt)
    with lb False pos show R by (intro assms(3)[of lb]) (simp_all add: lid_def)
  qed
qed


lemma removed_slot_fields [simp]:
  "GetMinSize (removed_slot page i) = GetMinSize page"
  "GetMaxSize (removed_slot page i) = GetMaxSize page"
  "GetSize (removed_slot page i) = GetSize page - 1"
  "IsLeafPage (removed_slot page i) = IsLeafPage page"
  by (simp_all add: removed_slot_def)

lemma RemoveFromParent_step_eq:
  assumes "0 \<le> index" and "index < int (length (write_set ctx))"
    and "pages t (write_set ctx ! nat index) = Some page"
  shows "RemoveFromParent_step vi ctx index held t =
     (if GetMinSize page \<le> GetSize (removed_slot page vi)
      then Inr (Done (put_page t (write_set ctx ! nat index) (removed_slot page vi)))
      else if IsRootPage ctx (write_set ctx ! nat index) then
        (if GetSize (removed_slot page vi) = 1 then
           (case header_page ctx of
              None \<Rightarrow> Inl NulloptDeref
            | Some header_guard \<Rightarrow>
                Inr (Done ((put_page t (write_set ctx ! nat index) (removed_slot page vi))
                             \<lparr>root_page_id := ValueAt (removed_slot page vi) 0\<rparr>)))
         else Inr (Done (put_page t (write_set ctx ! nat index) (removed_slot page vi))))
      else if index - 1 < 0 then Inl OutOfRange
      else
        (case pages t (write_set ctx ! nat (index - 1)) of
           None \<Rightarrow> Inl FetchFailed
         | Some parent \<Rightarrow>
             if ValueIndex parent (write_set ctx ! nat index) < GetSize parent - 1
             then RemoveFromParent_right_brother ctx held t (write_set ctx ! nat index)
                    (removed_slot page vi) (write_set ctx ! nat (index - 1)) parent
                    (ValueIndex parent (write_set ctx ! nat index))
             else RemoveFromParent_left_brother ctx held t (write_set ctx ! nat index)
                    (removed_slot page vi) (write_set ctx ! nat (index - 1)) parent
                    (ValueIndex parent (write_set ctx ! nat index))))"
  using assms
  by (simp add: RemoveFromParent_step_def Let_def As_def removed_slot_def split: option.splits)

lemma RemoveFromParent_step_cases [consumes 1, case_names plain collapse right left]:
  assumes "RemoveFromParent_step vi ctx index held t = Inr r"
    and "\<And>page. 0 \<le> index \<Longrightarrow> index < int (length (write_set ctx)) \<Longrightarrow>
           pages t (write_set ctx ! nat index) = Some page \<Longrightarrow>
           GetMinSize page \<le> GetSize (removed_slot page vi) \<or>
             (IsRootPage ctx (write_set ctx ! nat index) \<and> GetSize (removed_slot page vi) \<noteq> 1) \<Longrightarrow>
           r = Done (put_page t (write_set ctx ! nat index) (removed_slot page vi)) \<Longrightarrow> R"
    and "\<And>page. 0 \<le> index \<Longrightarrow> index < int (length (write_set ctx)) \<Longrightarrow>
           pages t (write_set ctx ! nat index) = Some page \<Longrightarrow>
           \<not> GetMinSize page \<le> GetSize (removed_slot page vi) \<Longrightarrow>
           IsRootPage ctx (write_set ctx ! nat index) \<Longrightarrow>
           GetSize (removed_slot page vi) = 1 \<Longrightarrow> header_page ctx = Some () \<Longrightarrow>
           r = Done ((put_page t (write_set ctx ! nat index) (removed_slot page vi))
                       \<lparr>root_page_id := ValueAt (removed_slot page vi) 0\<rparr>) \<Longrightarrow> R"
    and "\<And>page parent. 1 \<le> index \<Longrightarrow> index < int (length (write_set ctx)) \<Longrightarrow>
           pages t (write_set ctx ! nat index) = Some page \<Longrightarrow>
           \<not> GetMinSize page \<le> GetSize (removed_slot page vi) \<Longrightarrow>
           \<not> IsRootPage ctx (write_set ctx ! nat index) \<Longrightarrow>
           pages t (write_set ctx ! nat (index - 1)) = Some parent \<Longrightarrow>
           ValueIndex parent (write_set ctx ! nat index) < GetSize parent - 1 \<Longrightarrow>
           RemoveFromParent_right_brother ctx held t (write_set ctx ! nat index)
             (removed_slot page vi) (write_set ctx ! nat (index - 1)) parent
             (ValueIndex parent (write_set ctx ! nat index)) = Inr r \<Longrightarrow> R"
    and "\<And>page parent. 1 \<le> index \<Longrightarrow> index < int (length (write_set ctx)) \<Longrightarrow>
           pages t (write_set ctx ! nat index) = Some page \<Longrightarrow>
           \<not> GetMinSize page \<le> GetSize (removed_slot page vi) \<Longrightarrow>
           \<not> IsRootPage ctx (write_set ctx ! nat index) \<Longrightarrow>
           pages t (write_set ctx ! nat (index - 1)) = Some parent \<Longrightarrow>
           \<not> ValueIndex parent (write_set ctx ! nat index) < GetSize parent - 1 \<Longrightarrow>
           RemoveFromParent_left_brother ctx held t (write_set ctx ! nat index)
             (removed_slot page vi) (write_set ctx ! nat (index - 1)) parent
             (ValueIndex parent (write_set ctx ! nat index)) = Inr r \<Longrightarrow> R"
  shows R
proof -
  define pid where "pid = write_set ctx ! nat index"
  from assms(1) have range: "0 \<le> index" "index < int (length (write_set ctx))"
    by (auto simp: RemoveFromParent_step_def split: if_splits)
  with assms(1) obtain page where page: "pages t pid = Some page"
    by (auto simp: RemoveFromParent_step_def Let_def pid_def As_def
          split: if_splits option.splits)
  define rp where "rp = removed_slot page vi"
  note eq = assms(1)[unfolded RemoveFromParent_step_eq[OF range page[unfolded pid_def]],
      folded pid_def rp_def]
  show R
  proof (cases "GetMinSize page \<le> GetSize rp")
    case True
    with eq have "r = Done (put_page t pid rp)" by simp
    with range page True show R by (intro assms(2)[of page]) (simp_all add: pid_def rp_def)
  next
    case under: False
    show R
    proof (cases "IsRootPage ctx pid")
      case root: True
      show R
      proof (cases "GetSize rp = 1")
        case True
        with eq under root have
          "header_page ctx = Some ()"
          "r = Done ((put_page t pid rp)\<lparr>root_page_id := ValueAt rp 0\<rparr>)"
          by (auto split: option.splits)
        with range page under root True show R
          by (intro assms(3)[of page]) (simp_all add: pid_def rp_def)
      next
        case False
        with eq under root have "r = Done (put_page t pid rp)"
          by simp
        with range page root False show R
          by (intro assms(2)[of page]) (simp_all add: pid_def rp_def)
      qed
    next
      case nonroot: False
      from eq under nonroot have i1: "1 \<le> index"
        by (auto split: if_splits)
      define parent_id where "parent_id = write_set ctx ! nat (index - 1)"
      from eq under nonroot i1 obtain parent where
        parent: "pages t parent_id = Some parent"
        by (auto simp: parent_id_def split: if_splits option.splits)
      show R
      proof (cases "ValueIndex parent pid < GetSize parent - 1")
        case True
        with eq under nonroot i1 parent have
          "RemoveFromParent_right_brother ctx held t pid rp parent_id parent
             (ValueIndex parent pid) = Inr r"
          by (simp add: parent_id_def)
        with range page under nonroot i1 parent True show R
          by (intro assms(4)[of page parent]) (simp_all add: pid_def rp_def parent_id_def)
      next
        case False
        with eq under nonroot i1 parent have
          "RemoveFromParent_left_brother ctx held t pid rp parent_id parent
             (ValueIndex parent pid) = Inr r"
          by (simp add: parent_id_def)
        with range page under nonroot i1 parent False show R
          by (intro assms(5)[of page parent]) (simp_all add: pid_def rp_def parent_id_def)
      qed
    qed
  qed
qed

lemma RemoveFromParent_induct_Inr [consumes 1, case_names finished recurse]:
  assumes "RemoveFromParent vi ctx index held t = Inr tf"
    and "\<And>vi index held t. RemoveFromParent_step vi ctx index held t = Inr (Done tf) \<Longrightarrow>
           Q vi index held t"
    and "\<And>vi index held t vi1 b t1.
           RemoveFromParent_step vi ctx index held t = Inr (Recurse vi1 b t1) \<Longrightarrow>
           0 \<le> index - 1 \<Longrightarrow>
           RemoveFromParent vi1 ctx (index - 1) (b # held) t1 = Inr tf \<Longrightarrow>
           Q vi1 (index - 1) (b # held) t1 \<Longrightarrow> Q vi index held t"
  shows "Q vi index held t"
  using assms(1)
proof (induction "nat (index + 1)" arbitrary: vi index held t rule: less_induct)
  case less
  from less.prems obtain r where r: "RemoveFromParent_step vi ctx index held t = Inr r"
    by (subst (asm) RemoveFromParent.simps) (auto split: sum.splits)
  show ?case
  proof (cases r)
    case (Done t1)
    with less.prems r have "t1 = tf" by (subst (asm) RemoveFromParent.simps) simp
    with r Done show ?thesis by (intro assms(2)) simp
  next
    case (Recurse vi1 b t1)
    with less.prems r have i: "0 \<le> index - 1"
      and rec: "RemoveFromParent vi1 ctx (index - 1) (b # held) t1 = Inr tf"
      by (subst (asm) RemoveFromParent.simps, simp split: if_splits)+
    have "Q vi1 (index - 1) (b # held) t1"
      using i by (intro less.hyps rec) simp
    with r Recurse i rec show ?thesis by (intro assms(3)[of vi index held t vi1 b t1]) simp_all
  qed
qed


lemma removal_page_fields [simp]:
  "IsLeafPage (merged_pages dst src) = IsLeafPage dst"
  "GetSize (merged_pages dst src) = GetSize dst + GetSize src"
  "GetMaxSize (merged_pages dst src) = GetMaxSize dst"
  "GetMinSize (merged_pages dst src) = GetMinSize dst"
  "IsLeafPage (borrowed_from_right page rb) = IsLeafPage page"
  "GetSize (borrowed_from_right page rb) = GetSize page + 1"
  "GetMaxSize (borrowed_from_right page rb) = GetMaxSize page"
  "GetMinSize (borrowed_from_right page rb) = GetMinSize page"
  "IsLeafPage (borrowed_from_left page lb) = IsLeafPage page"
  "GetSize (borrowed_from_left page lb) = GetSize page + 1"
  "GetMaxSize (borrowed_from_left page lb) = GetMaxSize page"
  "GetMinSize (borrowed_from_left page lb) = GetMinSize page"
  "IsLeafPage (lent_first rb) = IsLeafPage rb"
  "GetSize (lent_first rb) = GetSize rb - 1"
  "GetMaxSize (lent_first rb) = GetMaxSize rb"
  "GetMinSize (lent_first rb) = GetMinSize rb"
  "IsLeafPage (lent_last lb) = IsLeafPage lb"
  "GetSize (lent_last lb) = GetSize lb - 1"
  "GetMaxSize (lent_last lb) = GetMaxSize lb"
  "GetMinSize (lent_last lb) = GetMinSize lb"
  by (simp_all add: merged_pages_def borrowed_from_right_def borrowed_from_left_def
        lent_first_def lent_last_def)

lemma RemoveFromParent_step_pool_step:
  assumes "RemoveFromParent_step vi ctx index held t = Inr r"
    and "alloc_ok t"
    and "nonleaf_at t (write_set ctx ! nat index)"
    and "1 \<le> index \<longrightarrow> nonleaf_at t (write_set ctx ! nat (index - 1))"
  shows "pool_step t (step_state r)"
  using assms(1)
proof (cases rule: RemoveFromParent_step_cases)
  case (plain page)
  with assms(3) have "\<not> IsLeafPage page" by (simp add: nonleaf_at_def)
  with plain alloc_ok_lt[OF assms(2) plain(3)] show ?thesis by (simp add: pool_step_put)
next
  case (collapse page)
  with assms(3) have "\<not> IsLeafPage page" by (simp add: nonleaf_at_def)
  with collapse alloc_ok_lt[OF assms(2) collapse(3)] show ?thesis by (simp add: pool_step_put)
next
  case (right page parent)
  with assms(3,4) have nl: "\<not> IsLeafPage page" "\<not> IsLeafPage parent"
    by (simp_all add: nonleaf_at_def)
  note lt = alloc_ok_lt[OF assms(2) right(3)] alloc_ok_lt[OF assms(2) right(6)]
  from right(8) show ?thesis
  proof (cases rule: RemoveFromParent_right_brother_cases)
    case (merge rb)
    with nl lt show ?thesis by (simp add: pool_step_put)
  next
    case (borrow rb)
    with nl lt alloc_ok_lt[OF assms(2) borrow(3)] show ?thesis
      by (simp add: pool_step_put pool_step_put_trans)
  qed
next
  case (left page parent)
  with assms(3,4) have nl: "\<not> IsLeafPage page" "\<not> IsLeafPage parent"
    by (simp_all add: nonleaf_at_def)
  note lt = alloc_ok_lt[OF assms(2) left(3)] alloc_ok_lt[OF assms(2) left(6)]
  from left(8) show ?thesis
  proof (cases rule: RemoveFromParent_left_brother_cases)
    case (merge lb)
    with nl lt alloc_ok_lt[OF assms(2) merge(4)] show ?thesis
      by (simp add: pool_step_put pool_step_put_trans)
  next
    case (borrow lb)
    with nl lt alloc_ok_lt[OF assms(2) borrow(4)] show ?thesis
      by (simp add: pool_step_put pool_step_put_trans)
  qed
qed

lemma RemoveFromParent_pool_step:
  assumes "RemoveFromParent vi ctx index held t = Inr tf"
    and "alloc_ok t"
    and "\<forall>j. 0 \<le> j \<and> j \<le> index \<and> j < int (length (write_set ctx)) \<longrightarrow>
            nonleaf_at t (write_set ctx ! nat j)"
  shows "pool_step t tf"
  using assms
proof (induction rule: RemoveFromParent_induct_Inr)
  case (finished vi index held t)
  from finished(1) have "0 \<le> index" "index < int (length (write_set ctx))"
    by (auto simp: RemoveFromParent_step_def split: if_splits)
  with finished show ?case
    using RemoveFromParent_step_pool_step[OF finished(1) finished(2)] by auto
next
  case (recurse vi index held t vi1 b t1)
  from recurse(1) have range: "0 \<le> index" "index < int (length (write_set ctx))"
    by (auto simp: RemoveFromParent_step_def split: if_splits)
  have ps: "pool_step t t1"
    using RemoveFromParent_step_pool_step[OF recurse(1) recurse(5)] recurse(6) range by auto
  have "pool_step t1 tf"
  proof (rule recurse(4))
    show "alloc_ok t1" using pool_step_alloc_ok[OF recurse(5) ps] .
    show "\<forall>j. 0 \<le> j \<and> j \<le> index - 1 \<and> j < int (length (write_set ctx)) \<longrightarrow>
            nonleaf_at t1 (write_set ctx ! nat j)"
      using recurse(6) pool_step_nonleaf_at[OF _ ps] by auto
  qed
  with ps show ?case by (rule pool_step_trans)
qed


text \<open>A leaf that has taken over the entries and the link of its right neighbour.\<close>

definition merged_leaves :: "BPlusTreePage \<Rightarrow> BPlusTreePage \<Rightarrow> BPlusTreePage" where
  "merged_leaves dst src = SetNextPageId (merged_pages dst src) (GetNextPageId src)"

lemma merged_leaves_fields [simp]:
  "IsLeafPage (merged_leaves dst src) = IsLeafPage dst"
  "GetSize (merged_leaves dst src) = GetSize dst + GetSize src"
  "GetMaxSize (merged_leaves dst src) = GetMaxSize dst"
  "GetMinSize (merged_leaves dst src) = GetMinSize dst"
  by (simp_all add: merged_leaves_def)

lemma Remove_right_brother_cases [consumes 1, case_names merge borrow]:
  assumes "Remove_right_brother ctx t leaf_id leaf_page parent_id parent_page index = Inr tf"
    and "\<And>rb. ValueAt parent_page (index + 1) \<notin> set (write_set ctx) \<Longrightarrow>
           pages t (ValueAt parent_page (index + 1)) = Some rb \<Longrightarrow> IsLeafPage rb \<Longrightarrow>
           GetSize rb + GetSize leaf_page < GetMaxSize leaf_page \<Longrightarrow>
           RemoveFromParent (index + 1) ctx (int (length (write_set ctx)) - 2)
             [ValueAt parent_page (index + 1)]
             (put_page t leaf_id (merged_leaves leaf_page rb)) = Inr tf \<Longrightarrow> R"
    and "\<And>rb. ValueAt parent_page (index + 1) \<notin> set (write_set ctx) \<Longrightarrow>
           pages t (ValueAt parent_page (index + 1)) = Some rb \<Longrightarrow> IsLeafPage rb \<Longrightarrow>
           \<not> GetSize rb + GetSize leaf_page < GetMaxSize leaf_page \<Longrightarrow>
           tf = put_page
                  (put_page (put_page t leaf_id (borrowed_from_right leaf_page rb))
                     (ValueAt parent_page (index + 1)) (lent_first rb))
                  parent_id
                  (SetKeyAt parent_page (index + 1) (KeyAt (lent_first rb) 0)) \<Longrightarrow> R"
  shows R
proof -
  define rid where "rid = ValueAt parent_page (index + 1)"
  from assms(1) obtain rb where
    rb: "rid \<notin> set (write_set ctx)" "pages t rid = Some rb" "IsLeafPage rb"
    by (auto simp: Remove_right_brother_def Let_def rid_def FetchPageWrite_def
          split: sum.splits if_splits option.splits)
  then have fw: "FetchPageWrite t ctx [] rid = Inr rb" by simp
  show R
  proof (cases "GetSize rb + GetSize leaf_page < GetMaxSize leaf_page")
    case True
    have "RemoveFromParent (index + 1) ctx (int (length (write_set ctx)) - 2) [rid]
             (put_page t leaf_id
                (SetNextPageId
                   (copy_slots 0 (GetSize rb) (GetSize leaf_page) rb
                      (SetSize leaf_page (GetSize rb + GetSize leaf_page)))
                   (GetNextPageId rb))) = Inr tf"
      using assms(1) rb(3) True
      by (simp add: Remove_right_brother_def Let_def rid_def[symmetric] fw)
    then have "RemoveFromParent (index + 1) ctx (int (length (write_set ctx)) - 2) [rid]
             (put_page t leaf_id (merged_leaves leaf_page rb)) = Inr tf"
      by (simp only: merged_pages_alt merged_leaves_def)
    with rb True show R by (intro assms(2)[of rb]) (simp_all add: rid_def)
  next
    case False
    have "tf = put_page
                  (put_page (put_page t leaf_id (borrowed_from_right leaf_page rb)) rid
                     (lent_first rb))
                  parent_id (SetKeyAt parent_page (index + 1) (KeyAt (lent_first rb) 0))"
      using assms(1) rb(3) False
      by (simp add: Remove_right_brother_def Let_def rid_def[symmetric] fw
            borrowed_from_right_def lent_first_def)
    with rb False show R by (intro assms(3)[of rb]) (simp_all add: rid_def)
  qed
qed

lemma Remove_left_brother_cases [consumes 1, case_names merge borrow]:
  assumes "Remove_left_brother ctx t leaf_id leaf_page parent_id parent_page index = Inr tf"
    and "\<And>lb. 0 \<le> index - 1 \<Longrightarrow> ValueAt parent_page (index - 1) \<notin> set (write_set ctx) \<Longrightarrow>
           pages t (ValueAt parent_page (index - 1)) = Some lb \<Longrightarrow> IsLeafPage lb \<Longrightarrow>
           GetSize lb + GetSize leaf_page < GetMaxSize lb \<Longrightarrow>
           RemoveFromParent index ctx (int (length (write_set ctx)) - 2)
             [ValueAt parent_page (index - 1)]
             (put_page (put_page t leaf_id leaf_page) (ValueAt parent_page (index - 1))
                (merged_leaves lb leaf_page)) = Inr tf \<Longrightarrow> R"
    and "\<And>lb. 0 \<le> index - 1 \<Longrightarrow> ValueAt parent_page (index - 1) \<notin> set (write_set ctx) \<Longrightarrow>
           pages t (ValueAt parent_page (index - 1)) = Some lb \<Longrightarrow> IsLeafPage lb \<Longrightarrow>
           \<not> GetSize lb + GetSize leaf_page < GetMaxSize lb \<Longrightarrow>
           tf = put_page
                  (put_page (put_page t leaf_id (borrowed_from_left leaf_page lb))
                     (ValueAt parent_page (index - 1)) (lent_last lb))
                  parent_id
                  (SetKeyAt parent_page index (KeyAt (borrowed_from_left leaf_page lb) 0)) \<Longrightarrow> R"
  shows R
proof -
  define lid where "lid = ValueAt parent_page (index - 1)"
  from assms(1) obtain lb where pos: "0 \<le> index - 1" and
    lb: "lid \<notin> set (write_set ctx)" "pages t lid = Some lb" "IsLeafPage lb"
    by (auto simp: Remove_left_brother_def Let_def lid_def FetchPageWrite_def
          split: sum.splits if_splits option.splits)
  then have fw: "FetchPageWrite t ctx [] lid = Inr lb" by simp
  show R
  proof (cases "GetSize lb + GetSize leaf_page < GetMaxSize lb")
    case True
    have "RemoveFromParent index ctx (int (length (write_set ctx)) - 2) [lid]
             (put_page (put_page t leaf_id leaf_page) lid (merged_leaves lb leaf_page)) = Inr tf"
      using assms(1) lb(3) True pos
      by (simp add: Remove_left_brother_def Let_def lid_def[symmetric] fw merged_leaves_def
            merged_pages_def)
    with lb True pos show R by (intro assms(2)[of lb]) (simp_all add: lid_def)
  next
    case False
    have "tf = put_page
                  (put_page (put_page t leaf_id (borrowed_from_left leaf_page lb)) lid
                     (lent_last lb))
                  parent_id
                  (SetKeyAt parent_page index (KeyAt (borrowed_from_left leaf_page lb) 0))"
      using assms(1) lb(3) False pos
      by (simp add: Remove_left_brother_def Let_def lid_def[symmetric] fw
            borrowed_from_left_def lent_last_def)
    with lb False pos show R by (intro assms(3)[of lb]) (simp_all add: lid_def)
  qed
qed

lemma Remove_at_leaf_eq:
  assumes "pages t (last (write_set ctx)) = Some leaf_page"
  shows "Remove_at_leaf key ctx t =
     (if BinaryFind_leaf leaf_page key = -1 \<or>
         KeyAt leaf_page (BinaryFind_leaf leaf_page key) \<noteq> key then Inr t
      else if GetMinSize leaf_page \<le> GetSize (removed_slot leaf_page (BinaryFind_leaf leaf_page key))
      then Inr (put_page t (last (write_set ctx))
                  (removed_slot leaf_page (BinaryFind_leaf leaf_page key)))
      else if IsRootPage ctx (last (write_set ctx)) then
        (if GetSize (removed_slot leaf_page (BinaryFind_leaf leaf_page key)) = 0
         then Inr ((put_page t (last (write_set ctx))
                      (removed_slot leaf_page (BinaryFind_leaf leaf_page key)))
                   \<lparr>root_page_id := INVALID_PAGE_ID\<rparr>)
         else Inr (put_page t (last (write_set ctx))
                     (removed_slot leaf_page (BinaryFind_leaf leaf_page key))))
      else if int (length (write_set ctx)) - 2 < 0 then Inl OutOfRange
      else
        (case pages t (write_set ctx ! nat (int (length (write_set ctx)) - 2)) of
           None \<Rightarrow> Inl FetchFailed
         | Some parent_page \<Rightarrow>
             if BinaryFind_internal parent_page key < GetSize parent_page - 1
             then Remove_right_brother ctx t (last (write_set ctx))
                    (removed_slot leaf_page (BinaryFind_leaf leaf_page key))
                    (write_set ctx ! nat (int (length (write_set ctx)) - 2)) parent_page
                    (BinaryFind_internal parent_page key)
             else Remove_left_brother ctx t (last (write_set ctx))
                    (removed_slot leaf_page (BinaryFind_leaf leaf_page key))
                    (write_set ctx ! nat (int (length (write_set ctx)) - 2)) parent_page
                    (BinaryFind_internal parent_page key)))"
  using assms
  by (simp add: Remove_at_leaf_def Let_def As_def removed_slot_def split: option.splits)


text \<open>The ways a call of \<open>Remove\<close> succeeds.\<close>

lemma Remove_cases [consumes 1, case_names empty absent plain emptied right left]:
  assumes "Remove fuel key t = Inr tf"
    and "root_page_id t = INVALID_PAGE_ID \<Longrightarrow> tf = t \<Longrightarrow> R"
    and "\<And>root_page ctx leaf_page.
           root_page_id t \<noteq> INVALID_PAGE_ID \<Longrightarrow> pages t (root_page_id t) = Some root_page \<Longrightarrow>
           FindLeafPage fuel key Op_Remove t (writer_ctx t root_page Op_Remove) = Inr ctx \<Longrightarrow>
           pages t (last (write_set ctx)) = Some leaf_page \<Longrightarrow>
           BinaryFind_leaf leaf_page key = -1 \<or>
             KeyAt leaf_page (BinaryFind_leaf leaf_page key) \<noteq> key \<Longrightarrow>
           tf = t \<Longrightarrow> R"
    and "\<And>root_page ctx leaf_page.
           root_page_id t \<noteq> INVALID_PAGE_ID \<Longrightarrow> pages t (root_page_id t) = Some root_page \<Longrightarrow>
           FindLeafPage fuel key Op_Remove t (writer_ctx t root_page Op_Remove) = Inr ctx \<Longrightarrow>
           pages t (last (write_set ctx)) = Some leaf_page \<Longrightarrow>
           BinaryFind_leaf leaf_page key \<noteq> -1 \<Longrightarrow>
           KeyAt leaf_page (BinaryFind_leaf leaf_page key) = key \<Longrightarrow>
           GetMinSize leaf_page \<le> GetSize leaf_page - 1 \<or>
             (IsRootPage ctx (last (write_set ctx)) \<and> GetSize leaf_page - 1 \<noteq> 0) \<Longrightarrow>
           tf = put_page t (last (write_set ctx))
                  (removed_slot leaf_page (BinaryFind_leaf leaf_page key)) \<Longrightarrow> R"
    and "\<And>root_page ctx leaf_page.
           root_page_id t \<noteq> INVALID_PAGE_ID \<Longrightarrow> pages t (root_page_id t) = Some root_page \<Longrightarrow>
           FindLeafPage fuel key Op_Remove t (writer_ctx t root_page Op_Remove) = Inr ctx \<Longrightarrow>
           pages t (last (write_set ctx)) = Some leaf_page \<Longrightarrow>
           BinaryFind_leaf leaf_page key \<noteq> -1 \<Longrightarrow>
           KeyAt leaf_page (BinaryFind_leaf leaf_page key) = key \<Longrightarrow>
           \<not> GetMinSize leaf_page \<le> GetSize leaf_page - 1 \<Longrightarrow>
           IsRootPage ctx (last (write_set ctx)) \<Longrightarrow> GetSize leaf_page - 1 = 0 \<Longrightarrow>
           tf = (put_page t (last (write_set ctx))
                   (removed_slot leaf_page (BinaryFind_leaf leaf_page key)))
                \<lparr>root_page_id := INVALID_PAGE_ID\<rparr> \<Longrightarrow> R"
    and "\<And>root_page ctx leaf_page parent_page.
           root_page_id t \<noteq> INVALID_PAGE_ID \<Longrightarrow> pages t (root_page_id t) = Some root_page \<Longrightarrow>
           FindLeafPage fuel key Op_Remove t (writer_ctx t root_page Op_Remove) = Inr ctx \<Longrightarrow>
           pages t (last (write_set ctx)) = Some leaf_page \<Longrightarrow>
           BinaryFind_leaf leaf_page key \<noteq> -1 \<Longrightarrow>
           KeyAt leaf_page (BinaryFind_leaf leaf_page key) = key \<Longrightarrow>
           \<not> GetMinSize leaf_page \<le> GetSize leaf_page - 1 \<Longrightarrow>
           \<not> IsRootPage ctx (last (write_set ctx)) \<Longrightarrow>
           0 \<le> int (length (write_set ctx)) - 2 \<Longrightarrow>
           pages t (write_set ctx ! nat (int (length (write_set ctx)) - 2)) = Some parent_page \<Longrightarrow>
           BinaryFind_internal parent_page key < GetSize parent_page - 1 \<Longrightarrow>
           Remove_right_brother ctx t (last (write_set ctx))
             (removed_slot leaf_page (BinaryFind_leaf leaf_page key))
             (write_set ctx ! nat (int (length (write_set ctx)) - 2)) parent_page
             (BinaryFind_internal parent_page key) = Inr tf \<Longrightarrow> R"
    and "\<And>root_page ctx leaf_page parent_page.
           root_page_id t \<noteq> INVALID_PAGE_ID \<Longrightarrow> pages t (root_page_id t) = Some root_page \<Longrightarrow>
           FindLeafPage fuel key Op_Remove t (writer_ctx t root_page Op_Remove) = Inr ctx \<Longrightarrow>
           pages t (last (write_set ctx)) = Some leaf_page \<Longrightarrow>
           BinaryFind_leaf leaf_page key \<noteq> -1 \<Longrightarrow>
           KeyAt leaf_page (BinaryFind_leaf leaf_page key) = key \<Longrightarrow>
           \<not> GetMinSize leaf_page \<le> GetSize leaf_page - 1 \<Longrightarrow>
           \<not> IsRootPage ctx (last (write_set ctx)) \<Longrightarrow>
           0 \<le> int (length (write_set ctx)) - 2 \<Longrightarrow>
           pages t (write_set ctx ! nat (int (length (write_set ctx)) - 2)) = Some parent_page \<Longrightarrow>
           \<not> BinaryFind_internal parent_page key < GetSize parent_page - 1 \<Longrightarrow>
           Remove_left_brother ctx t (last (write_set ctx))
             (removed_slot leaf_page (BinaryFind_leaf leaf_page key))
             (write_set ctx ! nat (int (length (write_set ctx)) - 2)) parent_page
             (BinaryFind_internal parent_page key) = Inr tf \<Longrightarrow> R"
  shows R
proof (cases "root_page_id t = INVALID_PAGE_ID")
  case True
  with assms(1) show R by (intro assms(2)) (auto simp: Remove_unfold)
next
  case False
  with assms(1) obtain root_page where rp: "pages t (root_page_id t) = Some root_page"
    by (auto simp: Remove_unfold FetchPageWrite_def Context_new_def split: sum.splits option.splits)
  then have fw: "FetchPageWrite t (Context_new\<lparr>header_page := Some ()\<rparr>) [] (root_page_id t)
                  = Inr root_page"
    by (simp add: Context_new_def)
  from assms(1) False fw obtain ctx where
    ctx: "FindLeafPage fuel key Op_Remove t (writer_ctx t root_page Op_Remove) = Inr ctx"
    and ral: "Remove_at_leaf key ctx t = Inr tf"
    by (auto simp: Remove_unfold writer_ctx_def split: sum.splits)
  from ral obtain leaf_page where lp: "pages t (last (write_set ctx)) = Some leaf_page"
    by (auto simp: Remove_at_leaf_def Let_def As_def split: option.splits)
  define lid where "lid = last (write_set ctx)"
  define pos where "pos = BinaryFind_leaf leaf_page key"
  define rl where "rl = removed_slot leaf_page pos"
  define parent_id where "parent_id = write_set ctx ! nat (int (length (write_set ctx)) - 2)"
  have rls: "GetSize rl = GetSize leaf_page - 1" by (simp add: rl_def)
  note eq = ral[unfolded Remove_at_leaf_eq[OF lp], folded pos_def, folded rl_def lid_def parent_id_def]
  note facts = False rp ctx lp
  show R
  proof (cases "pos = -1 \<or> KeyAt leaf_page pos \<noteq> key")
    case True
    with eq have "tf = t" by simp
    with True show R by (intro assms(3)[OF facts]) (simp_all add: pos_def)
  next
    case found: False
    then have f: "BinaryFind_leaf leaf_page key \<noteq> -1"
      "KeyAt leaf_page (BinaryFind_leaf leaf_page key) = key" by (simp_all add: pos_def)
    show R
    proof (cases "GetMinSize leaf_page \<le> GetSize rl")
      case True
      with eq found have "tf = put_page t lid rl" by simp
      with True show R
        by (intro assms(4)[OF facts f]) (simp_all add: rls lid_def rl_def pos_def)
    next
      case under: False
      then have u: "\<not> GetMinSize leaf_page \<le> GetSize leaf_page - 1" by (simp add: rls)
      show R
      proof (cases "IsRootPage ctx lid")
        case root: True
        show R
        proof (cases "GetSize rl = 0")
          case True
          with eq found under root have "tf = (put_page t lid rl)\<lparr>root_page_id := INVALID_PAGE_ID\<rparr>"
            by simp
          with True root show R
            by (intro assms(5)[OF facts f u]) (simp_all add: rls lid_def rl_def pos_def)
        next
          case False
          with eq found under root have "tf = put_page t lid rl" by simp
          with False root show R
            by (intro assms(4)[OF facts f]) (simp_all add: rls lid_def rl_def pos_def)
        qed
      next
        case nonroot: False
        then have nr: "\<not> IsRootPage ctx (last (write_set ctx))" by (simp add: lid_def)
        from eq found under nonroot have len: "0 \<le> int (length (write_set ctx)) - 2"
          by (auto split: if_splits)
        from eq found under nonroot len obtain parent_page where
          pp: "pages t parent_id = Some parent_page"
          by (auto split: if_splits option.splits)
        note pp' = pp[unfolded parent_id_def]
        show R
        proof (cases "BinaryFind_internal parent_page key < GetSize parent_page - 1")
          case True
          with eq found under nonroot len pp have
            "Remove_right_brother ctx t lid rl parent_id parent_page
               (BinaryFind_internal parent_page key) = Inr tf" by simp
          then show R
            by (intro assms(6)[OF facts f u nr len pp' True])
               (simp add: lid_def rl_def pos_def parent_id_def)
        next
          case False
          with eq found under nonroot len pp have
            "Remove_left_brother ctx t lid rl parent_id parent_page
               (BinaryFind_internal parent_page key) = Inr tf" by simp
          then show R
            by (intro assms(7)[OF facts f u nr len pp' False])
               (simp add: lid_def rl_def pos_def parent_id_def)
        qed
      qed
    qed
  qed
qed


section \<open>Reachable states\<close>

text \<open>
  The states of the index that a freshly constructed tree comes to by completed calls of
  \<open>Insert\<close> and \<open>Remove\<close>.
\<close>

inductive reachable :: "BPlusTree \<Rightarrow> bool" where
  reachable_new: "reachable (BPlusTree_new lm im)"
| reachable_Insert:
    "reachable t \<Longrightarrow> Insert fuel key value t = Inr (inserted, t') \<Longrightarrow> reachable t'"
| reachable_Remove:
    "reachable t \<Longrightarrow> Remove fuel key t = Inr t' \<Longrightarrow> reachable t'"

lemma writer_ctx_simps [simp]:
  "write_set (writer_ctx t root_page op) = [root_page_id t]"
  "ctx_root_page_id (writer_ctx t root_page op) = root_page_id t"
  "header_page (writer_ctx t root_page op) =
     (if IsSafePage root_page op True then None else Some ())"
  by (simp_all add: writer_ctx_def)

lemma Insert_leaf_ok:
  assumes "Insert fuel key value t = Inr (b, tf)"
    and "alloc_ok t" and "leaf_ok t" and "2 \<le> leaf_max_size t"
  shows "alloc_ok tf \<and> leaf_ok tf \<and> leaf_max_size tf = leaf_max_size t"
  using assms(1)
proof (cases rule: Insert_cases)
  case first
  have "alloc_ok (put_page (snd (NewPageGuarded t)) (next_new_page t)
                   (SetAt (SetSize (Init_leaf zero_page (leaf_max_size t)) 1) 0 key value))"
    by (intro alloc_ok_put alloc_ok_new assms(2)) simp
  moreover have "leaf_ok (put_page (snd (NewPageGuarded t)) (next_new_page t)
                   (SetAt (SetSize (Init_leaf zero_page (leaf_max_size t)) 1) 0 key value))"
    by (intro leaf_ok_put leaf_ok_new assms(3)) (use assms(4) in simp)
  ultimately show ?thesis using first by simp
next
  case (duplicate root_page ctx leaf_page)
  with assms show ?thesis by simp
next
  case (room root_page ctx leaf_page)
  from FindLeafPage_write_path[OF _ room(3)] room(4)
  have leaf: "IsLeafPage leaf_page" by (auto simp: writer_ctx_def)
  with assms(3) room(4) have mx: "GetMaxSize leaf_page = leaf_max_size t"
    by (auto simp: leaf_ok_def)
  have "alloc_ok tf" unfolding room(8)
    by (intro alloc_ok_put assms(2) alloc_ok_lt[OF assms(2) room(4)])
  moreover have "leaf_ok tf" unfolding room(8)
    by (intro leaf_ok_put assms(3)) (use room(6) mx in simp)
  ultimately show ?thesis using room(8) by simp
next
  case (split root_page ctx leaf_page)
  from FindLeafPage_write_path[OF _ split(3)] split(4)
  have path: "path_ok t (write_set ctx)" and leaf: "IsLeafPage leaf_page"
    by (auto simp: writer_ctx_def)
  with assms(3) split(4) have mx: "GetMaxSize leaf_page = leaf_max_size t"
    and sz: "GetSize leaf_page \<le> leaf_max_size t - 1"
    by (auto simp: leaf_ok_def)
  define L1 where "L1 = Insert_into_leaf leaf_page (BinaryFind_leaf leaf_page key) key value"
  define L where "L = fst (Insert_split_leaf L1 (next_new_page t) (leaf_max_size t))"
  define Rp where "Rp = snd (Insert_split_leaf L1 (next_new_page t) (leaf_max_size t))"
  define t2 where "t2 = put_page (put_page (snd (NewPageGuarded t)) (last (write_set ctx)) L)
                          (next_new_page t) Rp"
  have mn: "1 \<le> GetMinSize leaf_page \<and> GetMinSize leaf_page \<le> GetMaxSize leaf_page - 1"
    using min_lt_max[of leaf_page] mx assms(4) by simp
  have lidlt: "last (write_set ctx) < next_new_page t" using alloc_ok_lt[OF assms(2) split(4)] .
  have a2: "alloc_ok t2" unfolding t2_def
    by (intro alloc_ok_put alloc_ok_new assms(2)) (use lidlt in simp_all)
  have l2: "leaf_ok t2" unfolding t2_def
    by (intro leaf_ok_put leaf_ok_new assms(3))
       (use mn mx sz in \<open>simp_all add: L_def Rp_def L1_def\<close>)
  have rec: "InsertIntoParent (KeyAt Rp 0) (next_new_page t) ctx
               (int (length (write_set ctx)) - 2) t2 = Inr tf"
    using split(8) by (simp add: t2_def L_def Rp_def L1_def)
  have nl: "\<forall>j. 0 \<le> j \<and> j \<le> int (length (write_set ctx)) - 2 \<and>
              j < int (length (write_set ctx)) \<longrightarrow> nonleaf_at t2 (write_set ctx ! nat j)"
  proof (intro allI impI)
    fix j assume j: "0 \<le> j \<and> j \<le> int (length (write_set ctx)) - 2 \<and>
              j < int (length (write_set ctx))"
    from path_ok_nth_nonleaf[OF path, of j] j
    have n: "nonleaf_at t (write_set ctx ! nat j)"
      and ne: "write_set ctx ! nat j \<noteq> last (write_set ctx)" by simp_all
    from n assms(2) have "write_set ctx ! nat j < next_new_page t"
      by (auto simp: nonleaf_at_def dest: alloc_ok_lt)
    with n ne show "nonleaf_at t2 (write_set ctx ! nat j)"
      by (simp add: nonleaf_at_def t2_def)
  qed
  have ps: "pool_step t2 tf" using InsertIntoParent_pool_step[OF rec a2 nl] .
  from pool_step_alloc_ok[OF a2 ps] pool_step_leaf_ok[OF l2 ps] ps
  show ?thesis by (simp add: pool_step_def t2_def)
qed


lemma Remove_leaf_ok:
  assumes "Remove fuel key t = Inr tf"
    and "alloc_ok t" and "leaf_ok t"
  shows "alloc_ok tf \<and> leaf_ok tf"
  using assms(1)
proof (cases rule: Remove_cases)
  case empty
  with assms show ?thesis by simp
next
  case (absent root_page ctx leaf_page)
  with assms show ?thesis by simp
next
  case (plain root_page ctx leaf_page)
  from assms(3) plain(4) have
    "IsLeafPage leaf_page \<longrightarrow> GetMaxSize leaf_page = leaf_max_size t \<and>
       GetSize leaf_page \<le> leaf_max_size t - 1"
    by (auto simp: leaf_ok_def)
  then have "leaf_ok tf" unfolding plain(8)
    by (intro leaf_ok_put assms(3)) auto
  moreover have "alloc_ok tf" unfolding plain(8)
    by (intro alloc_ok_put assms(2) alloc_ok_lt[OF assms(2) plain(4)])
  ultimately show ?thesis by simp
next
  case (emptied root_page ctx leaf_page)
  from assms(3) emptied(4) have
    "IsLeafPage leaf_page \<longrightarrow> GetMaxSize leaf_page = leaf_max_size t \<and>
       GetSize leaf_page \<le> leaf_max_size t - 1"
    by (auto simp: leaf_ok_def)
  then have "leaf_ok (put_page t (last (write_set ctx))
                (removed_slot leaf_page (BinaryFind_leaf leaf_page key)))"
    by (intro leaf_ok_put assms(3)) auto
  moreover have "alloc_ok (put_page t (last (write_set ctx))
                (removed_slot leaf_page (BinaryFind_leaf leaf_page key)))"
    by (intro alloc_ok_put assms(2) alloc_ok_lt[OF assms(2) emptied(4)])
  ultimately show ?thesis using emptied(10) by simp
next
  case (right root_page ctx leaf_page parent_page)
  from FindLeafPage_write_path[OF _ right(3)] right(4)
  have path: "path_ok t (write_set ctx)" and leaf: "IsLeafPage leaf_page"
    by (auto simp: writer_ctx_def)
  with assms(3) right(4) have mx: "GetMaxSize leaf_page = leaf_max_size t"
    and sz: "GetSize leaf_page \<le> leaf_max_size t - 1"
    by (auto simp: leaf_ok_def)
  define lid where "lid = last (write_set ctx)"
  define parent_id where "parent_id = write_set ctx ! nat (int (length (write_set ctx)) - 2)"
  define rl where "rl = removed_slot leaf_page (BinaryFind_leaf leaf_page key)"
  have lidlt: "lid < next_new_page t"
    using alloc_ok_lt[OF assms(2) right(4)] by (simp add: lid_def)
  have plt: "parent_id < next_new_page t"
    using alloc_ok_lt[OF assms(2) right(10)] by (simp add: parent_id_def)
  have pnl: "\<not> IsLeafPage parent_page"
    using path_ok_nth_nonleaf(1)[OF path, of "int (length (write_set ctx)) - 2"] right(9,10)
    by (simp add: nonleaf_at_def)
  from right(12)[folded lid_def parent_id_def rl_def] show ?thesis
  proof (cases rule: Remove_right_brother_cases)
    case (merge rb)
    define t1 where "t1 = put_page t lid (merged_leaves rl rb)"
    have a1: "alloc_ok t1" unfolding t1_def by (intro alloc_ok_put assms(2) lidlt)
    have l1: "leaf_ok t1" unfolding t1_def
      by (intro leaf_ok_put assms(3)) (use merge(4) mx in \<open>simp add: rl_def\<close>)
    have nl: "\<forall>j. 0 \<le> j \<and> j \<le> int (length (write_set ctx)) - 2 \<and>
              j < int (length (write_set ctx)) \<longrightarrow> nonleaf_at t1 (write_set ctx ! nat j)"
    proof (intro allI impI)
      fix j assume j: "0 \<le> j \<and> j \<le> int (length (write_set ctx)) - 2 \<and>
              j < int (length (write_set ctx))"
      from path_ok_nth_nonleaf[OF path, of j] j
      show "nonleaf_at t1 (write_set ctx ! nat j)"
        by (simp add: nonleaf_at_def t1_def lid_def)
    qed
    have ps: "pool_step t1 tf"
      using RemoveFromParent_pool_step[OF merge(5)[folded t1_def] a1 nl] .
    from pool_step_alloc_ok[OF a1 ps] pool_step_leaf_ok[OF l1 ps] show ?thesis by simp
  next
    case (borrow rb)
    from assms(3) borrow(2,3) have rbm: "GetMaxSize rb = leaf_max_size t"
      "GetSize rb \<le> leaf_max_size t - 1" by (auto simp: leaf_ok_def)
    have rlt: "ValueAt parent_page (BinaryFind_internal parent_page key + 1) < next_new_page t"
      using alloc_ok_lt[OF assms(2) borrow(2)] .
    have "alloc_ok tf" unfolding borrow(5)
      by (intro alloc_ok_put assms(2)) (use lidlt plt rlt in simp_all)
    moreover have "leaf_ok tf" unfolding borrow(5)
      by (intro leaf_ok_put assms(3)) (use mx sz rbm pnl in \<open>simp_all add: rl_def\<close>)
    ultimately show ?thesis by simp
  qed
next
  case (left root_page ctx leaf_page parent_page)
  from FindLeafPage_write_path[OF _ left(3)] left(4)
  have path: "path_ok t (write_set ctx)" and leaf: "IsLeafPage leaf_page"
    by (auto simp: writer_ctx_def)
  with assms(3) left(4) have mx: "GetMaxSize leaf_page = leaf_max_size t"
    and sz: "GetSize leaf_page \<le> leaf_max_size t - 1"
    by (auto simp: leaf_ok_def)
  define lid where "lid = last (write_set ctx)"
  define parent_id where "parent_id = write_set ctx ! nat (int (length (write_set ctx)) - 2)"
  define rl where "rl = removed_slot leaf_page (BinaryFind_leaf leaf_page key)"
  have lidlt: "lid < next_new_page t"
    using alloc_ok_lt[OF assms(2) left(4)] by (simp add: lid_def)
  have plt: "parent_id < next_new_page t"
    using alloc_ok_lt[OF assms(2) left(10)] by (simp add: parent_id_def)
  have pnl: "\<not> IsLeafPage parent_page"
    using path_ok_nth_nonleaf(1)[OF path, of "int (length (write_set ctx)) - 2"] left(9,10)
    by (simp add: nonleaf_at_def)
  from left(12)[folded lid_def parent_id_def rl_def] show ?thesis
  proof (cases rule: Remove_left_brother_cases)
    case (merge lb)
    from assms(3) merge(3,4) have lbm: "GetMaxSize lb = leaf_max_size t"
      by (auto simp: leaf_ok_def)
    define bid where "bid = ValueAt parent_page (BinaryFind_internal parent_page key - 1)"
    define t1 where "t1 = put_page (put_page t lid rl) bid (merged_leaves lb rl)"
    have blt: "bid < next_new_page t"
      using alloc_ok_lt[OF assms(2) merge(3)] by (simp add: bid_def)
    have a1: "alloc_ok t1" unfolding t1_def
      by (intro alloc_ok_put assms(2)) (use lidlt blt in simp_all)
    have l1: "leaf_ok t1" unfolding t1_def
      by (intro leaf_ok_put assms(3)) (use merge(5) mx sz lbm in \<open>simp_all add: rl_def\<close>)
    have nl: "\<forall>j. 0 \<le> j \<and> j \<le> int (length (write_set ctx)) - 2 \<and>
              j < int (length (write_set ctx)) \<longrightarrow> nonleaf_at t1 (write_set ctx ! nat j)"
    proof (intro allI impI)
      fix j assume j: "0 \<le> j \<and> j \<le> int (length (write_set ctx)) - 2 \<and>
              j < int (length (write_set ctx))"
      then have "nat j < length (write_set ctx)" by linarith
      then have "write_set ctx ! nat j \<in> set (write_set ctx)" by (rule nth_mem)
      with merge(2) have "write_set ctx ! nat j \<noteq> bid" by (auto simp: bid_def)
      with path_ok_nth_nonleaf[OF path, of j] j
      show "nonleaf_at t1 (write_set ctx ! nat j)"
        by (simp add: nonleaf_at_def t1_def lid_def)
    qed
    have ps: "pool_step t1 tf"
      using RemoveFromParent_pool_step[OF merge(6)[folded bid_def, folded t1_def] a1 nl] .
    from pool_step_alloc_ok[OF a1 ps] pool_step_leaf_ok[OF l1 ps] show ?thesis by simp
  next
    case (borrow lb)
    from assms(3) borrow(3,4) have lbm: "GetMaxSize lb = leaf_max_size t"
      "GetSize lb \<le> leaf_max_size t - 1" by (auto simp: leaf_ok_def)
    have blt: "ValueAt parent_page (BinaryFind_internal parent_page key - 1) < next_new_page t"
      using alloc_ok_lt[OF assms(2) borrow(3)] .
    have "alloc_ok tf" unfolding borrow(6)
      by (intro alloc_ok_put assms(2)) (use lidlt plt blt in simp_all)
    moreover have "leaf_ok tf" unfolding borrow(6)
      by (intro leaf_ok_put assms(3)) (use mx sz lbm pnl in \<open>simp_all add: rl_def\<close>)
    ultimately show ?thesis by simp
  qed
qed


text \<open>The two maximum sizes of the tree never change.\<close>

definition same_params :: "BPlusTree \<Rightarrow> BPlusTree \<Rightarrow> bool" where
  "same_params t t' =
     (leaf_max_size t' = leaf_max_size t \<and> internal_max_size t' = internal_max_size t)"

lemma same_params_simps [simp]:
  "same_params t t"
  "same_params t (put_page t' pid p) = same_params t t'"
  "same_params t (t'\<lparr>root_page_id := r\<rparr>) = same_params t t'"
  "same_params t (snd (NewPageGuarded t')) = same_params t t'"
  "same_params t (after_split t' pid P k c) = same_params t t'"
  by (simp_all add: same_params_def after_split_def)

lemma same_params_trans: "same_params t t1 \<Longrightarrow> same_params t1 t2 \<Longrightarrow> same_params t t2"
  by (simp add: same_params_def)

lemma InsertIntoParent_params:
  assumes "InsertIntoParent k c ctx index t = Inr tf"
  shows "same_params t tf"
  using assms
proof (induction rule: InsertIntoParent_induct_Inr)
  case (new_root k c index t)
  then show ?case
    by (auto simp: InsertIntoParent_new_root_def Let_def NewPageGuarded_def same_params_def
          put_page_def split: if_splits option.splits)
next
  case (room k c index t P)
  then show ?case by simp
next
  case (full k c index t P)
  have "same_params t (after_split t (write_set ctx ! nat index) P k c)" by simp
  then show ?case using full(6) by (rule same_params_trans)
qed

lemma RemoveFromParent_step_params:
  assumes "RemoveFromParent_step vi ctx index held t = Inr r"
  shows "same_params t (step_state r)"
  using assms
proof (cases rule: RemoveFromParent_step_cases)
  case (right page parent)
  from right(8) show ?thesis
    by (cases rule: RemoveFromParent_right_brother_cases) simp_all
next
  case (left page parent)
  from left(8) show ?thesis
    by (cases rule: RemoveFromParent_left_brother_cases) simp_all
qed simp_all

lemma RemoveFromParent_params:
  assumes "RemoveFromParent vi ctx index held t = Inr tf"
  shows "same_params t tf"
  using assms
proof (induction rule: RemoveFromParent_induct_Inr)
  case (finished vi index held t)
  from RemoveFromParent_step_params[OF this] show ?case by simp
next
  case (recurse vi index held t vi1 b t1)
  from RemoveFromParent_step_params[OF recurse(1)] recurse(4) show ?case
    by (auto intro: same_params_trans)
qed

lemma Insert_params:
  assumes "Insert fuel key value t = Inr (b, tf)"
  shows "same_params t tf"
  using assms
proof (cases rule: Insert_cases)
  case (split root_page ctx leaf_page)
  from InsertIntoParent_params[OF split(8)] show ?thesis by (simp add: same_params_def)
qed simp_all

lemma Remove_params:
  assumes "Remove fuel key t = Inr tf"
  shows "same_params t tf"
  using assms
proof (cases rule: Remove_cases)
  case (right root_page ctx leaf_page parent_page)
  from right(12) show ?thesis
  proof (cases rule: Remove_right_brother_cases)
    case (merge rb)
    from RemoveFromParent_params[OF merge(5)] show ?thesis by (simp add: same_params_def)
  qed simp
next
  case (left root_page ctx leaf_page parent_page)
  from left(12) show ?thesis
  proof (cases rule: Remove_left_brother_cases)
    case (merge lb)
    from RemoveFromParent_params[OF merge(6)] show ?thesis by (simp add: same_params_def)
  qed simp
qed simp_all

lemma reachable_leaf_ok:
  "reachable t \<Longrightarrow> 2 \<le> leaf_max_size t \<Longrightarrow> alloc_ok t \<and> leaf_ok t"
proof (induction rule: reachable.induct)
  case (reachable_new lm im)
  show ?case by (simp add: BPlusTree_new_def alloc_ok_def leaf_ok_def)
next
  case (reachable_Insert t fuel key "value" inserted t')
  from Insert_params[OF reachable_Insert(2)] reachable_Insert(4)
  have lm: "2 \<le> leaf_max_size t" by (simp add: same_params_def)
  with Insert_leaf_ok[OF reachable_Insert(2)] reachable_Insert.IH show ?case by simp
next
  case (reachable_Remove t fuel key t')
  from Remove_params[OF reachable_Remove(2)] reachable_Remove(4)
  have lm: "2 \<le> leaf_max_size t" by (simp add: same_params_def)
  with Remove_leaf_ok[OF reachable_Remove(2)] reachable_Remove.IH show ?case by simp
qed

lemma reachable_InsertFromFile:
  "reachable t \<Longrightarrow> InsertFromFile fuel keys t = Inr t' \<Longrightarrow> reachable t'"
proof (induction keys arbitrary: t)
  case Nil
  then show ?case by simp
next
  case (Cons key keys)
  then show ?case
    by (auto split: sum.splits intro: reachable_Insert)
qed

lemma reachable_RemoveFromFile:
  "reachable t \<Longrightarrow> RemoveFromFile fuel keys t = Inr t' \<Longrightarrow> reachable t'"
proof (induction keys arbitrary: t)
  case Nil
  then show ?case by simp
next
  case (Cons key keys)
  then show ?case
    by (auto split: sum.splits intro: reachable_Remove)
qed

lemma reachable_tree_1_to_5: "reachable tree_1_to_5"
proof -
  have "case InsertFromFile 1 [1, 2, 3, 4, 5] (BPlusTree_new 4 4) of
          Inl e \<Rightarrow> False | Inr t \<Rightarrow> True"
    by code_simp
  then obtain t where t: "InsertFromFile 1 [1, 2, 3, 4, 5] (BPlusTree_new 4 4) = Inr t"
    by (auto split: sum.splits)
  then have "tree_1_to_5 = t" by (simp add: tree_1_to_5_def)
  with reachable_InsertFromFile[OF reachable_new t] show ?thesis by simp
qed

text \<open>
  Claim C10.  In every state reached from a fresh tree by completed calls of \<open>Insert\<close> and
  \<open>Remove\<close>, with a leaf maximum of at least 2, every leaf page (of the whole pool, hence
  of the tree) has size at most \<open>leaf_max_size - 1\<close> and carries the tree's leaf maximum;
  so the insertion into such a leaf takes the split branch exactly when it brings the size up
  to \<open>leaf_max_size\<close>.
\<close>

theorem leaf_size_below_max:
  assumes "reachable t" and "2 \<le> leaf_max_size t"
    and "pages t pid = Some leaf_page" and "IsLeafPage leaf_page"
  shows "GetSize leaf_page \<le> leaf_max_size t - 1 \<and>
         GetMaxSize leaf_page = leaf_max_size t \<and>
         (\<not> GetSize (Insert_into_leaf leaf_page index key value)
              < GetMaxSize (Insert_into_leaf leaf_page index key value) \<longleftrightarrow>
            GetSize (Insert_into_leaf leaf_page index key value) = leaf_max_size t)"
proof -
  from reachable_leaf_ok[OF assms(1,2)] assms(3,4)
  have "GetMaxSize leaf_page = leaf_max_size t" "GetSize leaf_page \<le> leaf_max_size t - 1"
    by (auto simp: leaf_ok_def)
  then show ?thesis by auto
qed

text \<open>Leaf 1 of \<open>tree_1_to_5\<close> holds three keys, with leaf maximum 4.\<close>

theorem leaf_size_below_max_witness:
  "GetSize (the (pages tree_1_to_5 1)) = 3 \<and>
   GetSize (the (pages tree_1_to_5 1)) \<le> leaf_max_size tree_1_to_5 - 1"
proof -
  have lm: "2 \<le> leaf_max_size tree_1_to_5" by code_simp
  have "map_option (\<lambda>p. (IsLeafPage p, GetSize p)) (pages tree_1_to_5 1) = Some (True, 3)"
    by code_simp
  then obtain p where p: "pages tree_1_to_5 1 = Some p" and l: "IsLeafPage p"
    and s: "GetSize p = 3" by auto
  from leaf_size_below_max[OF reachable_tree_1_to_5 lm p l] p s show ?thesis by simp
qed

section \<open>The allocator in every reachable state\<close>

text \<open>A change of the pool that only allocates pages and rewrites pages that exist.\<close>

definition dom_step :: "BPlusTree \<Rightarrow> BPlusTree \<Rightarrow> bool" where
  "dom_step t t' =
     (next_new_page t \<le> next_new_page t' \<and>
      (\<forall>i. pages t' i \<noteq> None \<longrightarrow>
           pages t i \<noteq> None \<or> (next_new_page t \<le> i \<and> i < next_new_page t')))"

lemma dom_step_refl [simp]: "dom_step t t"
  by (simp add: dom_step_def)

lemma dom_step_root [simp]: "dom_step t (t'\<lparr>root_page_id := r\<rparr>) = dom_step t t'"
  by (simp add: dom_step_def)

lemma dom_step_trans: "dom_step t t1 \<Longrightarrow> dom_step t1 t2 \<Longrightarrow> dom_step t t2"
  unfolding dom_step_def by (intro conjI allI impI; force)

lemma dom_step_put: "pages t pid \<noteq> None \<Longrightarrow> dom_step t (put_page t pid p)"
  by (simp add: dom_step_def)

lemma dom_step_put_trans:
  "dom_step t t1 \<Longrightarrow> pages t1 pid \<noteq> None \<Longrightarrow> dom_step t (put_page t1 pid p)"
  using dom_step_trans dom_step_put by blast

lemma dom_step_new: "dom_step t (snd (NewPageGuarded t))"
  by (simp add: dom_step_def)

lemma dom_step_alloc_ok: "alloc_ok t \<Longrightarrow> dom_step t t' \<Longrightarrow> alloc_ok t'"
  unfolding dom_step_def alloc_ok_def
  by (metis linorder_not_less order_trans)

lemma after_split_dom_step:
  "pages t pid \<noteq> None \<Longrightarrow> dom_step t (after_split t pid P k c)"
  unfolding after_split_def
  by (intro dom_step_put_trans[OF dom_step_put_trans[OF dom_step_new]]) simp_all

lemma InsertIntoParent_dom_step:
  assumes "InsertIntoParent k c ctx index t = Inr tf"
  shows "dom_step t tf"
  using assms
proof (induction rule: InsertIntoParent_induct_Inr)
  case (new_root k c index t)
  then show ?case
    by (auto simp: InsertIntoParent_new_root_def Let_def NewPageGuarded_def dom_step_def
          put_page_def split: if_splits option.splits)
next
  case (room k c index t P)
  then show ?case by (simp add: dom_step_put)
next
  case (full k c index t P)
  have "dom_step t (after_split t (write_set ctx ! nat index) P k c)"
    using full(3) by (intro after_split_dom_step) simp
  then show ?case using full(6) by (rule dom_step_trans)
qed

lemma RemoveFromParent_step_dom_step:
  assumes "RemoveFromParent_step vi ctx index held t = Inr r"
  shows "dom_step t (step_state r)"
  using assms
proof (cases rule: RemoveFromParent_step_cases)
  case (plain page)
  then show ?thesis by (simp add: dom_step_put)
next
  case (collapse page)
  then show ?thesis by (simp add: dom_step_put)
next
  case (right page parent)
  from right(8) show ?thesis
  proof (cases rule: RemoveFromParent_right_brother_cases)
    case (merge rb)
    with right show ?thesis by (simp add: dom_step_put)
  next
    case (borrow rb)
    with right show ?thesis
      by (auto intro!: dom_step_put_trans dom_step_put)
  qed
next
  case (left page parent)
  from left(8) show ?thesis
  proof (cases rule: RemoveFromParent_left_brother_cases)
    case (merge lb)
    with left show ?thesis by (auto intro!: dom_step_put_trans dom_step_put)
  next
    case (borrow lb)
    with left show ?thesis by (auto intro!: dom_step_put_trans dom_step_put)
  qed
qed

lemma RemoveFromParent_dom_step:
  assumes "RemoveFromParent vi ctx index held t = Inr tf"
  shows "dom_step t tf"
  using assms
proof (induction rule: RemoveFromParent_induct_Inr)
  case (finished vi index held t)
  from RemoveFromParent_step_dom_step[OF this] show ?case by simp
next
  case (recurse vi index held t vi1 b t1)
  from RemoveFromParent_step_dom_step[OF recurse(1)] recurse(4) show ?case
    by (auto intro: dom_step_trans)
qed

lemma Insert_dom_step:
  assumes "Insert fuel key value t = Inr (b, tf)"
  shows "dom_step t tf"
  using assms
proof (cases rule: Insert_cases)
  case first
  then show ?thesis by (auto simp: dom_step_def)
next
  case (duplicate root_page ctx leaf_page)
  then show ?thesis by simp
next
  case (room root_page ctx leaf_page)
  then show ?thesis by (simp add: dom_step_put)
next
  case (split root_page ctx leaf_page)
  have "dom_step t (put_page
                (put_page (snd (NewPageGuarded t)) (last (write_set ctx))
                   (fst (Insert_split_leaf
                      (Insert_into_leaf leaf_page (BinaryFind_leaf leaf_page key) key value)
                      (next_new_page t) (leaf_max_size t))))
                (next_new_page t)
                (snd (Insert_split_leaf
                   (Insert_into_leaf leaf_page (BinaryFind_leaf leaf_page key) key value)
                   (next_new_page t) (leaf_max_size t))))"
    using split(4) by (intro dom_step_put_trans[OF dom_step_put_trans[OF dom_step_new]]) simp_all
  then show ?thesis using InsertIntoParent_dom_step[OF split(8)] by (rule dom_step_trans)
qed

lemma Remove_dom_step:
  assumes "Remove fuel key t = Inr tf"
  shows "dom_step t tf"
  using assms
proof (cases rule: Remove_cases)
  case (plain root_page ctx leaf_page)
  then show ?thesis by (simp add: dom_step_put)
next
  case (emptied root_page ctx leaf_page)
  then show ?thesis by (simp add: dom_step_put)
next
  case (right root_page ctx leaf_page parent_page)
  from right(12) show ?thesis
  proof (cases rule: Remove_right_brother_cases)
    case (merge rb)
    have "dom_step t (put_page t (last (write_set ctx))
             (merged_leaves (removed_slot leaf_page (BinaryFind_leaf leaf_page key)) rb))"
      using right(4) by (simp add: dom_step_put)
    then show ?thesis using RemoveFromParent_dom_step[OF merge(5)] by (rule dom_step_trans)
  next
    case (borrow rb)
    with right show ?thesis by (auto intro!: dom_step_put_trans dom_step_put)
  qed
next
  case (left root_page ctx leaf_page parent_page)
  from left(12) show ?thesis
  proof (cases rule: Remove_left_brother_cases)
    case (merge lb)
    have "dom_step t (put_page (put_page t (last (write_set ctx))
              (removed_slot leaf_page (BinaryFind_leaf leaf_page key)))
             (ValueAt parent_page (BinaryFind_internal parent_page key - 1))
             (merged_leaves lb (removed_slot leaf_page (BinaryFind_leaf leaf_page key))))"
      using left(4) merge(3) by (auto intro!: dom_step_put_trans dom_step_put)
    then show ?thesis using RemoveFromParent_dom_step[OF merge(6)] by (rule dom_step_trans)
  next
    case (borrow lb)
    with left show ?thesis by (auto intro!: dom_step_put_trans dom_step_put)
  qed
qed simp_all

lemma reachable_alloc_ok: "reachable t \<Longrightarrow> alloc_ok t"
proof (induction rule: reachable.induct)
  case (reachable_new lm im)
  show ?case by (simp add: BPlusTree_new_def alloc_ok_def)
next
  case (reachable_Insert t fuel key "value" inserted t')
  then show ?case using dom_step_alloc_ok Insert_dom_step by blast
next
  case (reachable_Remove t fuel key t')
  then show ?case using dom_step_alloc_ok Remove_dom_step by blast
qed

section \<open>The header guard at a change of the root\<close>

text \<open>
  The descent keeps the first page of the write set, or replaces it by a page that is safe
  for the operation.
\<close>

lemma hd_pop_front_while_snoc [simp]: "hd (pop_front_while (ws @ [c])) = c"
  by simp

lemma FindLeafPage_write_head:
  assumes "op \<noteq> Op_Search"
    and "FindLeafPage fuel key op t ctx = Inr ctx'"
    and "write_set ctx \<noteq> []"
  shows "hd (write_set ctx') = hd (write_set ctx) \<or>
         (\<exists>p. pages t (hd (write_set ctx')) = Some p \<and> IsSafePage p op False)"
  using assms(2,3)
proof (induction fuel arbitrary: ctx)
  case 0
  then show ?case using assms(1) by (auto split: sum.splits if_splits)
next
  case (Suc fuel)
  show ?case
  proof (cases "As t (last (write_set ctx))")
    case (Inl e)
    with Suc.prems assms(1) show ?thesis by simp
  next
    case (Inr page)
    show ?thesis
    proof (cases "IsLeafPage page")
      case True
      with Suc.prems Inr assms(1) show ?thesis by auto
    next
      case False
      define c where "c = ValueAt page (BinaryFind_internal page key)"
      from Suc.prems(1) Inr False assms(1) obtain child where
        child: "c \<notin> set (write_set ctx)" "pages t c = Some child"
        by (auto simp: Let_def c_def split: sum.splits)
      define ctx1 where "ctx1 = (if IsSafePage child op False
                       then ctx\<lparr>write_set := pop_front_while (write_set ctx @ [c])\<rparr>
                       else ctx\<lparr>write_set := write_set ctx @ [c]\<rparr>)"
      have run: "FindLeafPage fuel key op t ctx1 = Inr ctx'"
        using Suc.prems(1) Inr False assms(1) child
        by (simp add: Let_def c_def[symmetric] ctx1_def FetchPageWrite_def)
      have ne: "write_set ctx1 \<noteq> []" by (simp add: ctx1_def)
      have h1: "hd (write_set ctx1) = hd (write_set ctx) \<or>
                (hd (write_set ctx1) = c \<and> IsSafePage child op False)"
        using Suc.prems(2) by (simp add: ctx1_def)
      from Suc.IH[OF run ne] h1 child(2) show ?thesis by auto
    qed
  qed
qed

lemma FindLeafPage_no_NulloptDeref: "FindLeafPage fuel key op t ctx \<noteq> Inl NulloptDeref"
proof (induction fuel arbitrary: ctx)
  case 0
  show ?case by (auto simp: As_def split: sum.splits option.splits)
next
  case (Suc fuel)
  show ?case
    using Suc.IH
    by (auto simp: As_def Let_def FetchPageWrite_def FetchPageRead_def
          split: sum.splits option.splits if_splits)
qed

text \<open>A general induction rule for \<open>InsertIntoParent\<close>, whatever the call answers.\<close>

lemma InsertIntoParent_induct_all [case_names new_root out_of_range missing room full]:
  assumes "\<And>k c index t. index < 0 \<Longrightarrow> Q k c index t"
    and "\<And>k c index t. 0 \<le> index \<Longrightarrow> int (length (write_set ctx)) \<le> index \<Longrightarrow> Q k c index t"
    and "\<And>k c index t. 0 \<le> index \<Longrightarrow> index < int (length (write_set ctx)) \<Longrightarrow>
           pages t (write_set ctx ! nat index) = None \<Longrightarrow> Q k c index t"
    and "\<And>k c index t P. 0 \<le> index \<Longrightarrow> index < int (length (write_set ctx)) \<Longrightarrow>
           pages t (write_set ctx ! nat index) = Some P \<Longrightarrow> GetSize P \<noteq> GetMaxSize P \<Longrightarrow>
           Q k c index t"
    and "\<And>k c index t P. 0 \<le> index \<Longrightarrow> index < int (length (write_set ctx)) \<Longrightarrow>
           pages t (write_set ctx ! nat index) = Some P \<Longrightarrow> GetSize P = GetMaxSize P \<Longrightarrow>
           Q (KeyAt (split_right t P k c) 0) (next_new_page t) (index - 1)
             (after_split t (write_set ctx ! nat index) P k c) \<Longrightarrow>
           Q k c index t"
  shows "Q k c index t"
proof (induction "nat (index + 1)" arbitrary: k c index t rule: less_induct)
  case (less index k c t)
  show ?case
  proof (cases "index < 0")
    case True
    then show ?thesis by (rule assms(1))
  next
    case nonneg: False
    show ?thesis
    proof (cases "int (length (write_set ctx)) \<le> index")
      case True
      with nonneg show ?thesis by (intro assms(2)[of index]) simp_all
    next
      case inrange: False
      show ?thesis
      proof (cases "pages t (write_set ctx ! nat index)")
        case None
        with nonneg inrange show ?thesis by (intro assms(3)[of index t]) simp_all
      next
        case (Some P)
        show ?thesis
        proof (cases "GetSize P = GetMaxSize P")
          case False
          with nonneg inrange Some show ?thesis by (intro assms(4)[of index t P]) simp_all
        next
          case True
          have "Q (KeyAt (split_right t P k c) 0) (next_new_page t) (index - 1)
                  (after_split t (write_set ctx ! nat index) P k c)"
            using nonneg by (intro less.hyps) simp
          with nonneg inrange Some True show ?thesis
            by (intro assms(5)[of index t P]) simp_all
        qed
      qed
    qed
  qed
qed

lemma pages_after_split:
  "w \<noteq> pid \<Longrightarrow> w \<noteq> next_new_page t \<Longrightarrow> pages (after_split t pid P k c) w = pages t w"
  by (simp add: after_split_def)

text \<open>
  \<open>InsertIntoParent\<close> does not dereference a released header guard: either the guard is
  held, or the first page of the write set has room, and then no split passes it.
\<close>

lemma InsertIntoParent_no_NulloptDeref:
  assumes "distinct (write_set ctx)"
  shows "alloc_ok t \<Longrightarrow>
         header_page ctx = Some () \<or>
           (0 \<le> index \<and> (\<exists>P0. pages t (write_set ctx ! 0) = Some P0 \<and>
                                 GetSize P0 \<noteq> GetMaxSize P0)) \<Longrightarrow>
         InsertIntoParent k c ctx index t \<noteq> Inl NulloptDeref"
proof (induction k c index t rule: InsertIntoParent_induct_all[where ctx = ctx])
  case (new_root k c index t)
  then show ?case
    by (auto simp: InsertIntoParent_neg InsertIntoParent_new_root_def Let_def
          split: prod.splits)
next
  case (out_of_range k c index t)
  then show ?case by (simp add: InsertIntoParent_out_of_range)
next
  case (missing k c index t)
  then show ?case by (simp add: InsertIntoParent_missing)
next
  case (room k c index t P)
  then show ?case by (simp add: InsertIntoParent_room)
next
  case (full k c index t P)
  let ?t1 = "after_split t (write_set ctx ! nat index) P k c"
  have a1: "alloc_ok ?t1"
    using full.prems(1) full(3) by (intro dom_step_alloc_ok[OF _ after_split_dom_step]) simp_all
  have h1: "header_page ctx = Some () \<or>
           (0 \<le> index - 1 \<and> (\<exists>P0. pages ?t1 (write_set ctx ! 0) = Some P0 \<and>
                                 GetSize P0 \<noteq> GetMaxSize P0))"
  proof (cases "header_page ctx = Some ()")
    case True
    then show ?thesis by simp
  next
    case False
    with full.prems(2) obtain P0 where
      P0: "pages t (write_set ctx ! 0) = Some P0" "GetSize P0 \<noteq> GetMaxSize P0"
      by auto
    have i0: "index \<noteq> 0"
      using P0 full(3,4) by auto
    with full(1) have i1: "0 \<le> index - 1" by simp
    have "write_set ctx ! 0 \<noteq> write_set ctx ! nat index"
    proof -
      have "nat index \<noteq> 0" "nat index < length (write_set ctx)" "0 < length (write_set ctx)"
        using full(1,2) i0 by auto
      with nth_eq_iff_index_eq[OF assms, of 0 "nat index"] show ?thesis by auto
    qed
    moreover have "write_set ctx ! 0 \<noteq> next_new_page t"
      using P0(1) full.prems(1) by (auto simp: alloc_ok_def)
    ultimately have "pages ?t1 (write_set ctx ! 0) = pages t (write_set ctx ! 0)"
      by (rule pages_after_split)
    with P0 i1 show ?thesis by simp
  qed
  from full.IH[OF a1 h1] full(1-4) show ?case by (simp add: InsertIntoParent_full)
qed


lemma Insert_no_NulloptDeref:
  assumes "alloc_ok t"
  shows "Insert fuel key value t \<noteq> Inl NulloptDeref"
proof
  assume bad: "Insert fuel key value t = Inl NulloptDeref"
  then have valid: "root_page_id t \<noteq> INVALID_PAGE_ID"
    by (auto simp: Insert_unfold Let_def split: prod.splits)
  with bad obtain root_page where rp: "pages t (root_page_id t) = Some root_page"
    by (auto simp: Insert_unfold FetchPageWrite_def Context_new_def split: sum.splits option.splits)
  then have fw: "FetchPageWrite t (Context_new\<lparr>header_page := Some ()\<rparr>) [] (root_page_id t)
                  = Inr root_page"
    by (simp add: Context_new_def)
  from bad valid fw obtain ctx where
    ctx: "FindLeafPage fuel key Op_Insert t (writer_ctx t root_page Op_Insert) = Inr ctx"
    using FindLeafPage_no_NulloptDeref
    by (auto simp: Insert_unfold writer_ctx_def split: sum.splits)
  from bad valid fw ctx obtain leaf_page where
    lp: "pages t (last (write_set ctx)) = Some leaf_page"
    by (auto simp: Insert_unfold writer_ctx_def As_def split: sum.splits option.splits)
  then have as: "As t (last (write_set ctx)) = Inr leaf_page" by simp
  define ws where "ws = write_set ctx"
  define leaf1 where
    "leaf1 = Insert_into_leaf leaf_page (BinaryFind_leaf leaf_page key) key value"
  define L where "L = fst (Insert_split_leaf leaf1 (next_new_page t) (leaf_max_size t))"
  define R where "R = snd (Insert_split_leaf leaf1 (next_new_page t) (leaf_max_size t))"
  define t2 where
    "t2 = put_page (put_page (snd (NewPageGuarded t)) (last ws) L) (next_new_page t) R"
  note unfold = Insert_unfold writer_ctx_def[symmetric] fw ctx as Let_def
  from bad valid have full: "\<not> GetSize leaf_page + 1 < GetMaxSize leaf_page"
    and parent: "InsertIntoParent (KeyAt R 0) (next_new_page t) ctx (int (length ws) - 2) t2
                   = Inl NulloptDeref"
    by (auto simp: unfold NewPageGuarded_def ws_def leaf1_def L_def R_def t2_def
          split: if_splits prod.splits sum.splits)
  have path: "path_ok t ws" and hp: "header_page ctx = header_page (writer_ctx t root_page Op_Insert)"
    using FindLeafPage_write_path[OF _ ctx] by (simp_all add: ws_def)
  then have ne: "ws \<noteq> []" and dist: "distinct ws" by (simp_all add: path_ok_def)
  have leaf: "IsLeafPage leaf_page"
    using FindLeafPage_write_path[OF _ ctx] lp by auto
  have a2: "alloc_ok t2"
    unfolding t2_def using assms lp
    by (intro dom_step_alloc_ok[OF assms dom_step_put_trans[OF dom_step_put_trans[OF dom_step_new]]])
       (simp_all add: ws_def)
  have "header_page ctx = Some () \<or>
        (0 \<le> int (length ws) - 2 \<and>
         (\<exists>P0. pages t2 (write_set ctx ! 0) = Some P0 \<and> GetSize P0 \<noteq> GetMaxSize P0))"
  proof (cases "header_page ctx = Some ()")
    case True
    then show ?thesis by simp
  next
    case False
    with hp have safe_root: "IsSafePage root_page Op_Insert True"
      by (simp add: writer_ctx_def split: if_splits)
    have "hd ws = root_page_id t \<or>
          (\<exists>p. pages t (hd ws) = Some p \<and> IsSafePage p Op_Insert False)"
      using FindLeafPage_write_head[OF _ ctx] by (simp add: ws_def)
    with rp safe_root obtain p where
      p: "pages t (hd ws) = Some p" "IsSafePage p Op_Insert False"
      by (auto simp: IsSafePage_def)
    have len: "2 \<le> length ws"
    proof (rule ccontr)
      assume "\<not> 2 \<le> length ws"
      with ne have "hd ws = last ws" by (cases ws) (auto simp: Suc_le_eq)
      with p lp full leaf show False by (auto simp: IsSafePage_def ws_def split: if_splits)
    qed
    then have hd_in: "hd ws \<in> set (butlast ws)"
      by (cases ws) (auto split: if_splits)
    with path p have "\<not> IsLeafPage p"
      by (auto simp: path_ok_def nonleaf_at_def)
    with p(2) have room: "GetSize p \<noteq> GetMaxSize p"
      by (auto simp: IsSafePage_def)
    have "hd ws \<noteq> last ws"
      using hd_in dist ne by (metis append_butlast_last_id distinct_append distinct.simps(2)
          disjoint_iff list.set_intros(1))
    moreover have "hd ws \<noteq> next_new_page t"
      using p(1) assms by (auto simp: alloc_ok_def)
    ultimately have "pages t2 (hd ws) = Some p"
      using p(1) by (simp add: t2_def)
    moreover have "write_set ctx ! 0 = hd ws"
      using ne by (simp add: ws_def hd_conv_nth)
    ultimately show ?thesis using len room by auto
  qed
  from InsertIntoParent_no_NulloptDeref[OF dist[unfolded ws_def] a2 this[unfolded ws_def]] parent
  show False by (simp add: ws_def)
qed

section \<open>The root collapse\<close>

lemma RemoveFromParent_brother_no_NulloptDeref:
  "RemoveFromParent_right_brother ctx held t page_id page parent_id parent_page pos
     \<noteq> Inl NulloptDeref"
  "RemoveFromParent_left_brother ctx held t page_id page parent_id parent_page pos
     \<noteq> Inl NulloptDeref"
  by (auto simp: RemoveFromParent_right_brother_def RemoveFromParent_left_brother_def
        FetchPageWrite_def Let_def split: sum.splits option.splits if_splits)

lemma RemoveFromParent_step_NulloptDeref:
  assumes "RemoveFromParent_step vi ctx index held t = Inl NulloptDeref"
  shows "0 \<le> index \<and> index < int (length (write_set ctx)) \<and> header_page ctx = None \<and>
         IsRootPage ctx (write_set ctx ! nat index) \<and>
         (\<exists>page. pages t (write_set ctx ! nat index) = Some page \<and> GetSize page = 2)"
proof -
  from assms have range: "0 \<le> index" "index < int (length (write_set ctx))"
    by (auto simp: RemoveFromParent_step_def split: if_splits)
  with assms obtain page where page: "pages t (write_set ctx ! nat index) = Some page"
    by (auto simp: RemoveFromParent_step_def Let_def As_def split: if_splits option.splits)
  note eq = assms[unfolded RemoveFromParent_step_eq[OF range page]]
  from eq have "header_page ctx = None \<and> IsRootPage ctx (write_set ctx ! nat index) \<and>
                GetSize page = 2"
    using RemoveFromParent_brother_no_NulloptDeref
    by (auto split: if_splits option.splits)
  with range page show ?thesis by simp
qed

lemma RemoveFromParent_step_Recurse_frame:
  assumes "RemoveFromParent_step vi ctx index held t = Inr (Recurse vi1 b t1)"
    and "w \<in> set (write_set ctx)" and "w \<noteq> write_set ctx ! nat index"
  shows "pages t1 w = pages t w"
  using assms(1)
proof (cases rule: RemoveFromParent_step_cases)
  case (right page parent)
  from right(8) show ?thesis
    by (cases rule: RemoveFromParent_right_brother_cases) (use assms(2,3) in auto)
next
  case (left page parent)
  from left(8) show ?thesis
    by (cases rule: RemoveFromParent_left_brother_cases) (use assms(2,3) in auto)
qed simp_all

text \<open>
  \<open>RemoveFromParent\<close> does not dereference a released header guard: either the guard is
  held, or the root page, if it is among the pages still to visit, has more than two slots.
\<close>

lemma RemoveFromParent_no_NulloptDeref:
  assumes "distinct (write_set ctx)"
  shows "header_page ctx = Some () \<or>
           (\<forall>j p. 0 \<le> j \<and> j \<le> index \<and> j < int (length (write_set ctx)) \<and>
                  write_set ctx ! nat j = ctx_root_page_id ctx \<and>
                  pages t (ctx_root_page_id ctx) = Some p \<longrightarrow> 2 < GetSize p) \<Longrightarrow>
         RemoveFromParent vi ctx index held t \<noteq> Inl NulloptDeref"
proof (induction "nat (index + 1)" arbitrary: vi index held t rule: less_induct)
  case (less index vi held t)
  show ?case
  proof (cases "RemoveFromParent_step vi ctx index held t")
    case (Inl e)
    have "e \<noteq> NulloptDeref"
    proof
      assume "e = NulloptDeref"
      with Inl have "RemoveFromParent_step vi ctx index held t = Inl NulloptDeref" by simp
      from RemoveFromParent_step_NulloptDeref[OF this] less.prems show False
        by (auto simp: IsRootPage_def)
    qed
    with Inl show ?thesis by (subst RemoveFromParent.simps) simp
  next
    case (Inr r)
    show ?thesis
    proof (cases r)
      case (Done t1)
      with Inr show ?thesis by (subst RemoveFromParent.simps) simp
    next
      case (Recurse vi1 b t1)
      show ?thesis
      proof (cases "index - 1 < 0")
        case True
        with Inr Recurse show ?thesis by (subst RemoveFromParent.simps) simp
      next
        case False
        from Inr have range: "0 \<le> index" "index < int (length (write_set ctx))"
          by (auto simp: RemoveFromParent_step_def split: if_splits)
        have pre: "header_page ctx = Some () \<or>
           (\<forall>j p. 0 \<le> j \<and> j \<le> index - 1 \<and> j < int (length (write_set ctx)) \<and>
                  write_set ctx ! nat j = ctx_root_page_id ctx \<and>
                  pages t1 (ctx_root_page_id ctx) = Some p \<longrightarrow> 2 < GetSize p)"
        proof (cases "header_page ctx = Some ()")
          case True
          then show ?thesis by simp
        next
          case nohdr: False
          have "2 < GetSize p"
            if j: "0 \<le> j" "j \<le> index - 1" "j < int (length (write_set ctx))"
              "write_set ctx ! nat j = ctx_root_page_id ctx"
              "pages t1 (ctx_root_page_id ctx) = Some p" for j p
          proof -
            have "nat j \<noteq> nat index" "nat j < length (write_set ctx)"
              "nat index < length (write_set ctx)"
              using j(1,2,3) range by auto
            with nth_eq_iff_index_eq[OF assms, of "nat j" "nat index"]
            have ne: "write_set ctx ! nat j \<noteq> write_set ctx ! nat index" by auto
            have "write_set ctx ! nat j \<in> set (write_set ctx)"
              using \<open>nat j < length (write_set ctx)\<close> by simp
            from RemoveFromParent_step_Recurse_frame[OF Inr[unfolded Recurse] this ne] j(4,5)
            have "pages t (ctx_root_page_id ctx) = Some p" by simp
            with less.prems nohdr j show ?thesis by auto
          qed
          then show ?thesis by blast
        qed
        have "RemoveFromParent vi1 ctx (index - 1) (b # held) t1 \<noteq> Inl NulloptDeref"
          using False by (intro less.hyps[OF _ pre]) simp
        with Inr Recurse False show ?thesis by (subst RemoveFromParent.simps) simp
      qed
    qed
  qed
qed


lemma Remove_right_brother_NulloptDeref:
  assumes "Remove_right_brother ctx t leaf_id leaf_page parent_id parent_page index
             = Inl NulloptDeref"
  shows "\<exists>X. RemoveFromParent (index + 1) ctx (int (length (write_set ctx)) - 2)
                [ValueAt parent_page (index + 1)] (put_page t leaf_id X) = Inl NulloptDeref"
  using assms
  by (auto simp: Remove_right_brother_def Let_def FetchPageWrite_def
        split: sum.splits option.splits if_splits)

lemma Remove_left_brother_NulloptDeref:
  assumes "Remove_left_brother ctx t leaf_id leaf_page parent_id parent_page index
             = Inl NulloptDeref"
  shows "ValueAt parent_page (index - 1) \<notin> set (write_set ctx) \<and>
         (\<exists>X Y. RemoveFromParent index ctx (int (length (write_set ctx)) - 2)
                [ValueAt parent_page (index - 1)]
                (put_page (put_page t leaf_id X) (ValueAt parent_page (index - 1)) Y)
              = Inl NulloptDeref)"
  using assms
  by (auto simp: Remove_left_brother_def Let_def FetchPageWrite_def
        split: sum.splits option.splits if_splits)

lemma Remove_no_NulloptDeref: "Remove fuel key t \<noteq> Inl NulloptDeref"
proof
  assume bad: "Remove fuel key t = Inl NulloptDeref"
  then have valid: "root_page_id t \<noteq> INVALID_PAGE_ID"
    by (auto simp: Remove_unfold)
  with bad obtain root_page where rp: "pages t (root_page_id t) = Some root_page"
    by (auto simp: Remove_unfold FetchPageWrite_def Context_new_def split: sum.splits option.splits)
  then have fw: "FetchPageWrite t (Context_new\<lparr>header_page := Some ()\<rparr>) [] (root_page_id t)
                  = Inr root_page"
    by (simp add: Context_new_def)
  from bad valid fw obtain ctx where
    ctx: "FindLeafPage fuel key Op_Remove t (writer_ctx t root_page Op_Remove) = Inr ctx"
    and at_leaf: "Remove_at_leaf key ctx t = Inl NulloptDeref"
    using FindLeafPage_no_NulloptDeref
    by (auto simp: Remove_unfold writer_ctx_def split: sum.splits)
  define ws where "ws = write_set ctx"
  have path: "path_ok t ws"
    and hp: "header_page ctx = header_page (writer_ctx t root_page Op_Remove)"
    and rid: "ctx_root_page_id ctx = root_page_id t"
    using FindLeafPage_write_path[OF _ ctx] by (simp_all add: ws_def writer_ctx_def)
  then have ne: "ws \<notin> {[]}" and dist: "distinct ws" by (simp_all add: path_ok_def)
  from at_leaf obtain leaf_page where lp: "pages t (last ws) = Some leaf_page"
    by (auto simp: Remove_at_leaf_def Let_def As_def ws_def split: option.splits)
  define parent_id where "parent_id = ws ! nat (int (length ws) - 2)"
  note eq = at_leaf[unfolded Remove_at_leaf_eq[OF lp[unfolded ws_def]], folded ws_def,
      folded parent_id_def]
  from eq have len: "0 \<le> int (length ws) - 2"
    by (auto split: if_splits)
  from eq obtain t1 vi b where
    run: "RemoveFromParent vi ctx (int (length ws) - 2) [b] t1 = Inl NulloptDeref"
    and frame: "\<forall>w \<in> set (butlast ws). pages t1 w = pages t w"
  proof -
    from eq len obtain parent_page where
      pp: "pages t parent_id = Some parent_page"
      by (auto split: if_splits option.splits)
    have last_notin: "last ws \<notin> set (butlast ws)"
      using dist ne by (metis append_butlast_last_id distinct_append distinct.simps(2)
          disjoint_iff list.set_intros(1) singletonI)
    show ?thesis
    proof (cases "BinaryFind_internal parent_page key < GetSize parent_page - 1")
      case True
      with eq len pp have "Remove_right_brother ctx t (last ws)
             (removed_slot leaf_page (BinaryFind_leaf leaf_page key)) parent_id parent_page
             (BinaryFind_internal parent_page key) = Inl NulloptDeref"
        by (auto split: if_splits)
      from Remove_right_brother_NulloptDeref[OF this] obtain X where
        "RemoveFromParent (BinaryFind_internal parent_page key + 1) ctx (int (length ws) - 2)
           [ValueAt parent_page (BinaryFind_internal parent_page key + 1)]
           (put_page t (last ws) X) = Inl NulloptDeref"
        by (auto simp: ws_def)
      moreover have "\<forall>w \<in> set (butlast ws). pages (put_page t (last ws) X) w = pages t w"
        using last_notin by auto
      ultimately show ?thesis by (rule that)
    next
      case False
      with eq len pp have "Remove_left_brother ctx t (last ws)
             (removed_slot leaf_page (BinaryFind_leaf leaf_page key)) parent_id parent_page
             (BinaryFind_internal parent_page key) = Inl NulloptDeref"
        by (auto split: if_splits)
      from Remove_left_brother_NulloptDeref[OF this] obtain X Y where
        lb: "ValueAt parent_page (BinaryFind_internal parent_page key - 1) \<notin> set ws"
        and "RemoveFromParent (BinaryFind_internal parent_page key) ctx (int (length ws) - 2)
           [ValueAt parent_page (BinaryFind_internal parent_page key - 1)]
           (put_page (put_page t (last ws) X)
              (ValueAt parent_page (BinaryFind_internal parent_page key - 1)) Y)
           = Inl NulloptDeref"
        by (auto simp: ws_def)
      moreover have "\<forall>w \<in> set (butlast ws).
           pages (put_page (put_page t (last ws) X)
              (ValueAt parent_page (BinaryFind_internal parent_page key - 1)) Y) w = pages t w"
        using last_notin lb by (auto dest: in_set_butlastD)
      ultimately show ?thesis by (intro that)
    qed
  qed
  have "header_page ctx = Some () \<or>
           (\<forall>j p. 0 \<le> j \<and> j \<le> int (length ws) - 2 \<and> j < int (length (write_set ctx)) \<and>
                  write_set ctx ! nat j = ctx_root_page_id ctx \<and>
                  pages t1 (ctx_root_page_id ctx) = Some p \<longrightarrow> 2 < GetSize p)"
  proof (cases "header_page ctx = Some ()")
    case True
    then show ?thesis by simp
  next
    case False
    with hp have safe_root: "IsSafePage root_page Op_Remove True"
      by (simp add: writer_ctx_def split: if_splits)
    have "2 < GetSize p"
      if j: "0 \<le> j" "j \<le> int (length ws) - 2" "ws ! nat j = root_page_id t"
        "pages t1 (root_page_id t) = Some p" for j p
    proof -
      have "nat j < length (butlast ws)" using j(1,2) by simp
      then have "butlast ws ! nat j \<in> set (butlast ws)" by (rule nth_mem)
      moreover have "butlast ws ! nat j = ws ! nat j"
        using \<open>nat j < length (butlast ws)\<close> by (simp add: nth_butlast)
      ultimately have mem: "root_page_id t \<in> set (butlast ws)" using j(3) by simp
      with frame j(4) rp have "p = root_page" by auto
      moreover from mem path rp have "\<not> IsLeafPage root_page"
        by (auto simp: path_ok_def nonleaf_at_def)
      ultimately show ?thesis using safe_root by (simp add: IsSafePage_def)
    qed
    then show ?thesis by (auto simp: rid ws_def)
  qed
  from RemoveFromParent_no_NulloptDeref[OF dist[unfolded ws_def] this] run
  show False by simp
qed

definition tree_1_to_4 :: BPlusTree where
  "tree_1_to_4 = projr (InsertFromFile 1 [1, 2, 3, 4] (BPlusTree_new 4 4))"

lemma reachable_tree_1_to_4: "reachable tree_1_to_4"
proof -
  have "case InsertFromFile 1 [1, 2, 3, 4] (BPlusTree_new 4 4) of
          Inl e \<Rightarrow> False | Inr t \<Rightarrow> True"
    by code_simp
  then obtain t where t: "InsertFromFile 1 [1, 2, 3, 4] (BPlusTree_new 4 4) = Inr t"
    by (auto split: sum.splits)
  then have "tree_1_to_4 = t" by (simp add: tree_1_to_4_def)
  with reachable_InsertFromFile[OF reachable_new t] show ?thesis by simp
qed

lemma reachable_tree_1_to_3: "reachable tree_1_to_3"
proof -
  have "case InsertFromFile 1 [1, 2, 3] (BPlusTree_new 4 4) of
          Inl e \<Rightarrow> False | Inr t \<Rightarrow> True"
    by code_simp
  then obtain t where t: "InsertFromFile 1 [1, 2, 3] (BPlusTree_new 4 4) = Inr t"
    by (auto split: sum.splits)
  then have "tree_1_to_3 = t" by (simp add: tree_1_to_3_def)
  with reachable_InsertFromFile[OF reachable_new t] show ?thesis by simp
qed

text \<open>
  Claim C7.  In every state that insertions and removals reach from the empty tree, neither
  \<open>Insert\<close> nor \<open>Remove\<close> ends in the dereference of a released header guard: whenever
  \<open>InsertIntoParent\<close> runs with a negative index, or \<open>RemoveFromParent\<close> finds the root with one
  slot left, the context still holds the header guard, and the new root id is written under it.
\<close>

theorem header_guard_held_at_root_change:
  assumes "reachable t"
  shows "Insert fuel key value t \<noteq> Inl NulloptDeref \<and> Remove fuel key' t \<noteq> Inl NulloptDeref"
  using Insert_no_NulloptDeref[OF reachable_alloc_ok[OF assms]] Remove_no_NulloptDeref
  by simp

text \<open>
  Inserting 4 into the single full leaf 1, 2, 3 splits the root (the root id goes from 0 to
  2), and removing 4 from the two leaves 1, 2 and 3, 4 collapses the root (the root id goes
  from 2 back to 0); both find the header guard held.
\<close>

theorem header_guard_held_at_root_change_witness:
  "map_sum id (\<lambda>(b, t). root_page_id t) (Insert 1 4 4 tree_1_to_3) = Inr 2 \<and>
   root_page_id tree_1_to_3 = 0 \<and>
   Insert 1 4 4 tree_1_to_3 \<noteq> Inl NulloptDeref \<and>
   map_sum id root_page_id (Remove 1 4 tree_1_to_4) = Inr 0 \<and>
   root_page_id tree_1_to_4 = 2 \<and>
   Remove 1 4 tree_1_to_4 \<noteq> Inl NulloptDeref"
proof -
  have a: "map_sum id (\<lambda>(b, t). root_page_id t) (Insert 1 4 4 tree_1_to_3) = Inr 2"
    by code_simp
  have b: "root_page_id tree_1_to_3 = 0" by code_simp
  have c: "map_sum id root_page_id (Remove 1 4 tree_1_to_4) = Inr 0" by code_simp
  have d: "root_page_id tree_1_to_4 = 2" by code_simp
  from header_guard_held_at_root_change[OF reachable_tree_1_to_3, of 1 4 4 4]
    header_guard_held_at_root_change[OF reachable_tree_1_to_4, of 1 4 4 4] a b c d
  show ?thesis by simp
qed

end
